theory Spec2Isabelle
  imports Main "HOL-Library.Word"
begin

unbundle bit_operations_syntax

section \<open>Values shared by both source files\<close>

type_synonym byte = "8 word"
type_synonym uint64 = "64 word"

text \<open>
  Go's \<open>error\<close> values. The errors that the two files create themselves have a
  constructor each; an error that comes back from a call into another package is opaque
  and is \<open>External n\<close>, with \<open>n\<close> standing for its identity.
\<close>

datatype error =
    External nat
  | TooSmallSegmentSize uint64  \<comment> \<open>\<open>fmt.Errorf("too small --segment.size %d", segmentSize)\<close>\<close>
  | DumpBlocksError error       \<comment> \<open>\<open>fmt.Errorf("DumpBlocks: %w", err)\<close>\<close>
  | ExpectingSegFilePath        \<comment> \<open>\<open>fmt.Errorf("expecting .seg file path")\<close>\<close>
  | EOF                         \<comment> \<open>\<open>io.EOF\<close>\<close>
  | ErrUnexpectedEOF            \<comment> \<open>\<open>io.ErrUnexpectedEOF\<close>\<close>
  | ErrOverflow                 \<comment> \<open>the overflow error of \<open>encoding/binary\<close>\<close>
  | ContextCanceled             \<comment> \<open>\<open>ctx.Err()\<close> after cancellation\<close>
  | ErrNotExist                 \<comment> \<open>the error of opening a file that does not exist\<close>

text \<open>
  A Go function either returns or panics. A panic carries a message (\<open>panic("...")\<close>),
  an error (\<open>panic(err)\<close>) or is raised by the runtime.
\<close>

datatype panic_value = PanicMsg string | PanicError error | RuntimePanic string

datatype 'a outcome = Returns 'a | Panics panic_value

section \<open>core/vm/access\_list\_tracer.go\<close>

subsection \<open>Data model\<close>

text \<open>
  \<open>common.Address\<close> is a 20-byte array and \<open>common.Hash\<close> a 32-byte array; both are
  compared by value, so they are modelled as words of 160 and 256 bits.

  \<open>accessList\<close> is \<open>map[common.Address]accessListSlots\<close> and \<open>accessListSlots\<close> is
  \<open>map[common.Hash]struct{}\<close>. A Go map holds every key once and iterates in an
  unspecified order. The model keeps a map as the list of its entries in the order in
  which the keys were inserted; \<open>len\<close> is the length of that list and \<open>range\<close> walks it.
  The invariant \<open>wf_accessList\<close> (every key once) is what the Go map type guarantees,
  and every operation of the source keeps it.
\<close>

type_synonym address = "160 word"
type_synonym hash = "256 word"

type_synonym accessListSlots = "hash list"
type_synonym accessList = "(address \<times> accessListSlots) list"

definition wf_accessList :: "accessList \<Rightarrow> bool" where
  "wf_accessList al = (distinct (map fst al) \<and> list_all (\<lambda>e. distinct (snd e)) al)"

text \<open>\<open>_, present := al[address]\<close>\<close>

definition present :: "accessList \<Rightarrow> address \<Rightarrow> bool" where
  "present al a = (case map_of al a of None \<Rightarrow> False | Some _ \<Rightarrow> True)"

text \<open>\<open>al[address]\<close>: the zero value (a nil map, which has no key) when the key is absent.\<close>

definition index_al :: "accessList \<Rightarrow> address \<Rightarrow> accessListSlots" where
  "index_al al a = (case map_of al a of None \<Rightarrow> [] | Some slots \<Rightarrow> slots)"

text \<open>The abstract content of an access list: which addresses it has, and the slot set of each.\<close>

definition addresses :: "accessList \<Rightarrow> address set" where
  "addresses al = set (map fst al)"

definition slots_of :: "accessList \<Rightarrow> address \<Rightarrow> hash set" where
  "slots_of al a = set (index_al al a)"

subsection \<open>Operations\<close>

definition newAccessList :: accessList where
  "newAccessList = []"

definition addAddress :: "accessList \<Rightarrow> address \<Rightarrow> accessList" where
  "addAddress al a = (if \<not> present al a then al @ [(a, [])] else al)"

text \<open>\<open>slots[slot] = struct{}{}\<close> on the inner map.\<close>

definition put_slot :: "accessListSlots \<Rightarrow> hash \<Rightarrow> accessListSlots" where
  "put_slot slots slot = (if slot \<in> set slots then slots else slots @ [slot])"

definition addSlot :: "accessList \<Rightarrow> address \<Rightarrow> hash \<Rightarrow> accessList" where
  "addSlot al a slot =
     map (\<lambda>e. if fst e = a then (fst e, put_slot (snd e) slot) else e) (addAddress al a)"

text \<open>
  \<open>equal\<close>: the length test, the two loops that cross-reference the accounts, and the
  loop over \<open>al\<close> that compares the slot maps the same way. Each loop only returns
  \<open>false\<close> early, so it is the conjunction over the entries in iteration order.
\<close>

definition slots_equal :: "accessListSlots \<Rightarrow> accessListSlots \<Rightarrow> bool" where
  "slots_equal slots otherslots =
     (if length slots \<noteq> length otherslots then False
      else if \<not> list_all (\<lambda>h. h \<in> set otherslots) slots then False
      else if \<not> list_all (\<lambda>h. h \<in> set slots) otherslots then False
      else True)"

definition accessList_equal :: "accessList \<Rightarrow> accessList \<Rightarrow> bool" where
  "accessList_equal al other =
     (if length al \<noteq> length other then False
      else if \<not> list_all (\<lambda>e. present other (fst e)) al then False
      else if \<not> list_all (\<lambda>e. present al (fst e)) other then False
      else list_all (\<lambda>e. slots_equal (snd e) (index_al other (fst e))) al)"

subsection \<open>The tracer\<close>

record AccessTuple =
  Address :: address
  StorageKeys :: "hash list"

record AccessListTracer =
  excl :: "address set"
  list :: accessList

text \<open>The body of the loop over \<open>acl\<close> in \<open>NewAccessListTracer\<close>.\<close>

definition add_tuple :: "address set \<Rightarrow> accessList \<Rightarrow> AccessTuple \<Rightarrow> accessList" where
  "add_tuple ex l al =
     foldl (\<lambda>l' slot. addSlot l' (Address al) slot)
       (if Address al \<notin> ex then addAddress l (Address al) else l)
       (StorageKeys al)"

definition NewAccessListTracer ::
  "AccessTuple list \<Rightarrow> address \<Rightarrow> address \<Rightarrow> address list \<Rightarrow> AccessListTracer" where
  "NewAccessListTracer acl from to precompiles =
     (let ex = foldl (\<lambda>e addr. insert addr e) {from, to} precompiles
      in \<lparr>excl = ex, list = foldl (add_tuple ex) newAccessList acl\<rparr>)"

text \<open>
  A hook either returns to its caller or panics; \<open>error\<close> results are \<open>None\<close> for
  \<open>nil\<close>.
\<close>

definition CaptureAccountWrite :: "AccessListTracer \<Rightarrow> address \<Rightarrow> error option outcome" where
  "CaptureAccountWrite a account = Panics (PanicMsg ''implement me'')"

definition CaptureTxStart :: "AccessListTracer \<Rightarrow> uint64 \<Rightarrow> unit outcome" where
  "CaptureTxStart a gasLimit = Returns ()"

definition CaptureTxEnd :: "AccessListTracer \<Rightarrow> uint64 \<Rightarrow> unit outcome" where
  "CaptureTxEnd a restGas = Returns ()"

definition CaptureEnd :: "AccessListTracer \<Rightarrow> byte list \<Rightarrow> uint64 \<Rightarrow> error option \<Rightarrow> unit outcome" where
  "CaptureEnd a output usedGas err = Returns ()"

text \<open>
  \<open>CaptureStart\<close> and \<open>CaptureEnter\<close> have no result type. Their arguments (the EVM, the
  opcode, the call's parties, input, gas, value and code) are not read; the model keeps
  the parties.
\<close>

definition CaptureStart :: "AccessListTracer \<Rightarrow> address \<Rightarrow> address \<Rightarrow> bool \<Rightarrow> bool \<Rightarrow> unit outcome" where
  "CaptureStart a from to precompile create = Panics (PanicMsg ''implement me'')"

definition CaptureEnter :: "AccessListTracer \<Rightarrow> address \<Rightarrow> address \<Rightarrow> bool \<Rightarrow> bool \<Rightarrow> unit outcome" where
  "CaptureEnter a from to precompile create = Panics (PanicMsg ''implement me'')"

definition CaptureExit :: "AccessListTracer \<Rightarrow> byte list \<Rightarrow> uint64 \<Rightarrow> error option \<Rightarrow> unit outcome" where
  "CaptureExit a output usedGas err = Returns ()"

definition CaptureSelfDestruct :: "AccessListTracer \<Rightarrow> address \<Rightarrow> address \<Rightarrow> unit outcome" where
  "CaptureSelfDestruct a from to = Returns ()"

definition CaptureAccountRead :: "AccessListTracer \<Rightarrow> address \<Rightarrow> error option outcome" where
  "CaptureAccountRead a account = Returns None"

text \<open>What a caller can observe of a hook's outcome.\<close>

fun aborts :: "'a outcome \<Rightarrow> bool" where
  "aborts (Panics m) = True"
| "aborts (Returns v) = False"

fun returns_error :: "error option outcome \<Rightarrow> bool" where
  "returns_error (Returns (Some e)) = True"
| "returns_error (Returns None) = False"
| "returns_error (Panics m) = False"

section \<open>turbo/app/snapshots.go: the commands that work on the database\<close>

subsection \<open>Calls into other packages\<close>

text \<open>
  The commands are sequences of calls into the database, the snapshot and the aggregator
  packages, none of which is part of this file. The model records every such call, in the
  order in which the command makes it, and asks its environment how the call answers.
  \<open>LogError\<close> is \<open>log.Error("Error", "err", err)\<close>; informational log lines are not
  recorded.
\<close>

datatype dir_name = Snap | SnapHistory | Tmp

datatype call =
    MustExist dir_name              \<comment> \<open>\<open>dir.MustExist\<close>\<close>
  | MustOpen                        \<comment> \<open>\<open>mdbx.NewMDBX(...).MustOpen()\<close>\<close>
  | Close                           \<comment> \<open>\<open>db.Close()\<close>\<close>
  | BeginRo                         \<comment> \<open>start of \<open>db.View\<close>\<close>
  | BeginRw                         \<comment> \<open>start of \<open>db.Update\<close>\<close>
  | Commit
  | Rollback
  | Cursor_BlockBody                \<comment> \<open>\<open>tx.Cursor(kv.BlockBody)\<close>\<close>
  | Cursor_Last                     \<comment> \<open>\<open>c.Last()\<close>\<close>
  | DumpBlocks uint64 uint64 uint64 \<comment> \<open>\<open>snapshotsync.DumpBlocks\<close>: from, to, blocks per file\<close>
  | ReopenFolder
  | ReopenWithDB
  | NewAggregator22
  | ReopenFiles
  | SetWorkers
  | WriteSnapshots                  \<comment> \<open>\<open>rawdb.WriteSnapshots(tx, files, agg.Files())\<close>\<close>
  | RetireBlocks uint64 uint64      \<comment> \<open>\<open>br.RetireBlocks(ctx, from, to, lvl)\<close>\<close>
  | PruneAncientBlocks
  | HistoryV3_FromDB                \<comment> \<open>\<open>kvcfg.HistoryV3.FromDB(db)\<close>\<close>
  | Agg_SetTx
  | Agg_Prune
  | BuildMissedIndices
  | GetStageProgress
  | TxNums_Max uint64
  | SetTxNum uint64
  | BuildFiles
  | MergeLoop
  | LogError error

type_synonym trace = "call list"

text \<open>
  The environment: \<open>respond env tr c\<close> is the error with which call \<open>c\<close>, made after the
  calls \<open>tr\<close>, comes back (\<open>None\<close> when it succeeds); the other fields are what the
  reads return. \<open>FullImmutabilityThreshold\<close> is the constant of package \<open>params\<close>.
\<close>

record env =
  respond :: "trace \<Rightarrow> call \<Rightarrow> error option"
  last_key :: "byte list"
  stage_progress :: uint64
  txnums_max :: "uint64 \<Rightarrow> uint64"
  history_v3 :: bool
  FullImmutabilityThreshold :: uint64

text \<open>A call that returns an error value, and one that panics instead (\<open>Must...\<close>).\<close>

definition call :: "env \<Rightarrow> call \<Rightarrow> trace \<Rightarrow> error option outcome \<times> trace" where
  "call env c tr = (Returns (respond env tr c), tr @ [c])"

definition must :: "env \<Rightarrow> call \<Rightarrow> trace \<Rightarrow> error option outcome \<times> trace" where
  "must env c tr =
     (case respond env tr c of
        Some e \<Rightarrow> (Panics (PanicError e), tr @ [c])
      | None \<Rightarrow> (Returns None, tr @ [c]))"

text \<open>\<open>if err := f(); err != nil { return err }\<close> followed by \<open>g\<close>.\<close>

definition seq ::
  "(trace \<Rightarrow> error option outcome \<times> trace) \<Rightarrow> (trace \<Rightarrow> error option outcome \<times> trace)
   \<Rightarrow> trace \<Rightarrow> error option outcome \<times> trace" where
  "seq f g tr = (case f tr of (Returns None, tr') \<Rightarrow> g tr' | (r, tr') \<Rightarrow> (r, tr'))"

text \<open>\<open>defer db.Close()\<close>: runs when the function returns and when it panics.\<close>

definition deferred ::
  "call \<Rightarrow> (trace \<Rightarrow> error option outcome \<times> trace) \<Rightarrow> trace \<Rightarrow> error option outcome \<times> trace" where
  "deferred c f tr = (case f tr of (r, tr') \<Rightarrow> (r, tr' @ [c]))"

text \<open>
  Modelled from the spec: the hot store's \<open>db.Update\<close> and \<open>db.View\<close> are not in this
  repository's files. The spec has them as scoped read-write and read-only transactions:
  \<open>Update\<close> begins a transaction, runs the function, commits when the function
  returns \<open>nil\<close> and rolls back otherwise; \<open>View\<close> always rolls back at the end.
\<close>

definition Update ::
  "env \<Rightarrow> (trace \<Rightarrow> error option outcome \<times> trace) \<Rightarrow> trace \<Rightarrow> error option outcome \<times> trace" where
  "Update env f tr =
     (case call env BeginRw tr of
        (Returns None, tr1) \<Rightarrow>
          (case f tr1 of
             (Returns None, tr2) \<Rightarrow>
               (case call env Commit tr2 of
                  (Returns None, tr3) \<Rightarrow> (Returns None, tr3)
                | (r, tr3) \<Rightarrow> (r, tr3 @ [Rollback]))
           | (r, tr2) \<Rightarrow> (r, tr2 @ [Rollback]))
      | (r, tr1) \<Rightarrow> (r, tr1))"

definition View ::
  "env \<Rightarrow> (trace \<Rightarrow> error option outcome \<times> trace) \<Rightarrow> trace \<Rightarrow> error option outcome \<times> trace" where
  "View env f tr =
     (case call env BeginRo tr of
        (Returns None, tr1) \<Rightarrow> deferred Rollback f tr1
      | (r, tr1) \<Rightarrow> (r, tr1))"

subsection \<open>\<open>snapshotBlocks\<close>\<close>

text \<open>
  \<open>binary.BigEndian.Uint64\<close> reads the first eight bytes and panics on a shorter slice.
\<close>

definition BigEndian_Uint64 :: "byte list \<Rightarrow> uint64 option" where
  "BigEndian_Uint64 b =
     (if length b < 8 then None
      else Some (foldl (\<lambda>acc x. push_bit 8 acc OR ucast x) 0 (take 8 b)))"

text \<open>
  The closure \<open>lastChunk\<close>. It returns the pair \<open>(last, err)\<close>. The remainder
  \<open>last % blocksPerFile\<close> panics when \<open>blocksPerFile\<close> is zero.
\<close>

definition lastChunk :: "env \<Rightarrow> uint64 \<Rightarrow> trace \<Rightarrow> (uint64 \<times> error option) outcome \<times> trace" where
  "lastChunk env blocksPerFile tr =
     (case respond env tr Cursor_BlockBody of
        Some e \<Rightarrow> (Returns (0, Some e), tr @ [Cursor_BlockBody])
      | None \<Rightarrow>
         (case respond env (tr @ [Cursor_BlockBody]) Cursor_Last of
            Some e \<Rightarrow> (Returns (0, Some e), tr @ [Cursor_BlockBody, Cursor_Last])
          | None \<Rightarrow>
             (case BigEndian_Uint64 (last_key env) of
                None \<Rightarrow> (Panics (RuntimePanic ''index out of range''),
                          tr @ [Cursor_BlockBody, Cursor_Last])
              | Some k \<Rightarrow>
                  (let last' = (if k > FullImmutabilityThreshold env
                               then k - FullImmutabilityThreshold env else 0)
                   in if blocksPerFile = 0
                      then (Panics (RuntimePanic ''integer divide by zero''),
                            tr @ [Cursor_BlockBody, Cursor_Last])
                      else (Returns (last' - last' mod blocksPerFile, None),
                            tr @ [Cursor_BlockBody, Cursor_Last])))))"

text \<open>The last statement of \<open>snapshotBlocks\<close>: the dump, with its error wrapped.\<close>

definition dump_blocks :: "env \<Rightarrow> uint64 \<Rightarrow> uint64 \<Rightarrow> uint64 \<Rightarrow> trace \<Rightarrow> error option outcome \<times> trace" where
  "dump_blocks env fromBlock last' blocksPerFile tr =
     (case respond env tr (DumpBlocks fromBlock last' blocksPerFile) of
        Some e \<Rightarrow> (Returns (Some (DumpBlocksError e)), tr @ [DumpBlocks fromBlock last' blocksPerFile])
      | None \<Rightarrow> (Returns None, tr @ [DumpBlocks fromBlock last' blocksPerFile]))"

definition snapshotBlocks :: "env \<Rightarrow> uint64 \<Rightarrow> uint64 \<Rightarrow> uint64 \<Rightarrow> trace \<Rightarrow> error option outcome \<times> trace" where
  "snapshotBlocks env fromBlock toBlock blocksPerFile tr =
     (if toBlock > 0 then dump_blocks env fromBlock toBlock blocksPerFile tr
      else
        (case respond env tr BeginRo of
           Some e \<Rightarrow> (Returns (Some e), tr @ [BeginRo])
         | None \<Rightarrow>
            (case lastChunk env blocksPerFile (tr @ [BeginRo]) of
               (Panics p, tr') \<Rightarrow> (Panics p, tr' @ [Rollback])
             | (Returns (last', Some e), tr') \<Rightarrow> (Returns (Some e), tr' @ [Rollback])
             | (Returns (last', None), tr') \<Rightarrow>
                 dump_blocks env fromBlock last' blocksPerFile (tr' @ [Rollback]))))"

subsection \<open>\<open>doSnapshotCommand\<close> (the \<open>create\<close> command)\<close>

text \<open>
  The block in braces after the database is opened. An error of \<open>snapshotBlocks\<close> is
  written to the log and the function goes on.
\<close>

definition persist_snapshots :: "env \<Rightarrow> trace \<Rightarrow> error option outcome \<times> trace" where
  "persist_snapshots env =
     seq (call env ReopenFolder)
    (seq (call env NewAggregator22)
    (seq (call env ReopenFiles)
    (seq (\<lambda>tr. (Returns None, tr @ [SetWorkers]))
         (Update env (call env WriteSnapshots)))))"

definition create_body :: "env \<Rightarrow> uint64 \<Rightarrow> uint64 \<Rightarrow> uint64 \<Rightarrow> trace \<Rightarrow> error option outcome \<times> trace" where
  "create_body env fromBlock toBlock segmentSize tr =
     (case snapshotBlocks env fromBlock toBlock segmentSize tr of
        (Panics p, tr') \<Rightarrow> (Panics p, tr')
      | (Returns (Some err), tr') \<Rightarrow> persist_snapshots env (tr' @ [LogError err])
      | (Returns None, tr') \<Rightarrow> persist_snapshots env tr')"

definition doSnapshotCommand :: "env \<Rightarrow> uint64 \<Rightarrow> uint64 \<Rightarrow> uint64 \<Rightarrow> trace \<Rightarrow> error option outcome \<times> trace" where
  "doSnapshotCommand env fromBlock toBlock segmentSize tr =
     (if segmentSize < 1000 then (Returns (Some (TooSmallSegmentSize segmentSize)), tr)
      else
        seq (must env (MustExist Snap))
       (seq (must env (MustExist SnapHistory))
       (seq (must env (MustExist Tmp))
       (seq (must env MustOpen)
            (deferred Close (create_body env fromBlock toBlock segmentSize))))) tr)"

subsection \<open>\<open>doRetireCommand\<close> (the \<open>retire\<close> command)\<close>

text \<open>
  \<open>for j := 0; j < 10_000; j++\<close> around \<open>br.PruneAncientBlocks(tx)\<close>: the body does not
  read \<open>j\<close>, so the loop is given by the number of rounds that remain. The two bounds
  \<open>10_000\<close> and \<open>1024\<close> of the source are named.
\<close>

definition block_prune_rounds :: nat where
  "block_prune_rounds = 10000"

definition history_prune_rounds :: nat where
  "history_prune_rounds = 1024"

fun prune_loop :: "nat \<Rightarrow> env \<Rightarrow> trace \<Rightarrow> error option outcome \<times> trace" where
  "prune_loop 0 env tr = (Returns None, tr)"
| "prune_loop (Suc n) env tr = seq (call env PruneAncientBlocks) (prune_loop n env) tr"

text \<open>
  The body of the loop over \<open>i\<close>: \<open>RetireBlocks(ctx, i, i+every, ...)\<close>, whose error
  becomes a panic, then one \<open>db.Update\<close> with the metadata write and the prune loop.
  \<open>i + every\<close> is a \<open>uint64\<close> sum and wraps.
\<close>

definition retire_step :: "env \<Rightarrow> uint64 \<Rightarrow> uint64 \<Rightarrow> trace \<Rightarrow> error option outcome \<times> trace" where
  "retire_step env i every =
     seq (must env (RetireBlocks i (i + every)))
         (Update env (seq (call env WriteSnapshots) (prune_loop block_prune_rounds env)))"

text \<open>
  \<open>for i := from; i < to; i += every\<close>. Nothing bounds the number of rounds (with
  \<open>every = 0\<close> the loop never ends), so the model takes the number of rounds it may run:
  the first component of the result is \<open>None\<close> when the loop is still running after that
  many rounds, and the trace is then the calls made so far.
\<close>

fun retire_loop ::
  "nat \<Rightarrow> env \<Rightarrow> uint64 \<Rightarrow> uint64 \<Rightarrow> uint64 \<Rightarrow> trace \<Rightarrow> error option outcome option \<times> trace" where
  "retire_loop 0 env i to every tr =
     (if i < to then (None, tr) else (Some (Returns None), tr))"
| "retire_loop (Suc n) env i to every tr =
     (if i < to then
        (case retire_step env i every tr of
           (Returns None, tr') \<Rightarrow> retire_loop n env (i + every) to every tr'
         | (r, tr') \<Rightarrow> (Some r, tr'))
      else (Some (Returns None), tr))"

text \<open>The two loops \<open>for i := 0; i < 1024; i++\<close>, each round one \<open>db.Update\<close>.\<close>

definition prune_history_tx :: "env \<Rightarrow> trace \<Rightarrow> error option outcome \<times> trace" where
  "prune_history_tx env =
     Update env (seq (\<lambda>tr. (Returns None, tr @ [Agg_SetTx])) (call env Agg_Prune))"

fun prune_history_loop :: "nat \<Rightarrow> env \<Rightarrow> trace \<Rightarrow> error option outcome \<times> trace" where
  "prune_history_loop 0 env tr = (Returns None, tr)"
| "prune_history_loop (Suc n) env tr = seq (prune_history_tx env) (prune_history_loop n env) tr"

text \<open>
  The \<open>db.View\<close> that sets the watermark. The error of \<open>GetStageProgress\<close> is discarded
  (\<open>execProgress, _ :=\<close>), so the environment is only asked for the value.
\<close>

definition set_watermark :: "env \<Rightarrow> trace \<Rightarrow> error option outcome \<times> trace" where
  "set_watermark env =
     View env (\<lambda>tr.
       (let execProgress = stage_progress env in
        case respond env (tr @ [GetStageProgress]) (TxNums_Max execProgress) of
          Some e \<Rightarrow> (Returns (Some e), tr @ [GetStageProgress, TxNums_Max execProgress])
        | None \<Rightarrow> (Returns None,
                   tr @ [GetStageProgress, TxNums_Max execProgress,
                         SetTxNum (txnums_max env execProgress)])))"

text \<open>Everything after the test of \<open>kvcfg.HistoryV3\<close>.\<close>

definition history_phases :: "env \<Rightarrow> trace \<Rightarrow> error option outcome \<times> trace" where
  "history_phases env =
     seq (prune_history_loop history_prune_rounds env)
    (seq (call env BuildMissedIndices)
    (seq (set_watermark env)
    (seq (call env BuildFiles)
    (seq (call env MergeLoop)
         (prune_history_loop history_prune_rounds env)))))"

text \<open>The calls between opening the database and the loop over \<open>i\<close>.\<close>

definition retire_setup :: "env \<Rightarrow> trace \<Rightarrow> error option outcome \<times> trace" where
  "retire_setup env =
     seq (call env ReopenWithDB)
    (seq (call env NewAggregator22)
    (seq (call env ReopenFiles)
         (\<lambda>tr. (Returns None, tr @ [SetWorkers]))))"

text \<open>
  \<open>doRetireCommand\<close>. The deferred \<open>db.Close()\<close> runs on every return and panic after
  the database is open.
\<close>

definition doRetireCommand ::
  "nat \<Rightarrow> env \<Rightarrow> uint64 \<Rightarrow> uint64 \<Rightarrow> uint64 \<Rightarrow> trace \<Rightarrow> error option outcome option \<times> trace" where
  "doRetireCommand fuel env from to every tr =
     (case must env MustOpen tr of
        (Returns None, tr0) \<Rightarrow>
          (case retire_setup env tr0 of
             (Returns None, tr1) \<Rightarrow>
               (case retire_loop fuel env from to every tr1 of
                  (Some (Returns None), tr2) \<Rightarrow>
                    (if \<not> history_v3 env
                     then (Some (Returns None), tr2 @ [HistoryV3_FromDB, Close])
                     else (case history_phases env (tr2 @ [HistoryV3_FromDB]) of
                             (r, tr3) \<Rightarrow> (Some r, tr3 @ [Close])))
                | (Some r, tr2) \<Rightarrow> (Some r, tr2 @ [Close])
                | (None, tr2) \<Rightarrow> (None, tr2))
           | (r, tr1) \<Rightarrow> (Some r, tr1 @ [Close]))
      | (r, tr0) \<Rightarrow> (Some r, tr0))"

text \<open>
  Reading a trace: the read-write transactions in it, each as the list of calls made
  between its \<open>BeginRw\<close> and its \<open>Commit\<close> or \<open>Rollback\<close>, and the block ranges handed to
  \<open>RetireBlocks\<close>.
\<close>

fun rw_txs_from :: "call list option \<Rightarrow> trace \<Rightarrow> call list list" where
  "rw_txs_from None [] = []"
| "rw_txs_from (Some body) [] = [body]"
| "rw_txs_from None (c # tr) =
     (if c = BeginRw then rw_txs_from (Some []) tr else rw_txs_from None tr)"
| "rw_txs_from (Some body) (c # tr) =
     (if c = Commit \<or> c = Rollback then body # rw_txs_from None tr
      else rw_txs_from (Some (body @ [c])) tr)"

definition rw_txs :: "trace \<Rightarrow> call list list" where
  "rw_txs tr = rw_txs_from None tr"

fun retired_ranges :: "trace \<Rightarrow> (uint64 \<times> uint64) list" where
  "retired_ranges [] = []"
| "retired_ranges (RetireBlocks a b # tr) = (a, b) # retired_ranges tr"
| "retired_ranges (c # tr) = retired_ranges tr"

text \<open>An environment in which no call fails, for the closed examples.\<close>

definition quiet :: env where
  "quiet = \<lparr>respond = (\<lambda>tr c. None), last_key = [0, 0, 0, 0, 0, 1, 0x86, 0xA0],
            stage_progress = 7, txnums_max = (\<lambda>n. 100 * n), history_v3 = True,
            FullImmutabilityThreshold = 90000\<rparr>"

subsection \<open>Notions used to state the properties of the commands\<close>

text \<open>
  \<open>all_succeed\<close>: no call into another package returns an error. \<open>step_calls\<close>: the
  calls of one round of the retire loop when nothing fails. \<open>rounds\<close>: the number of
  \<open>k\<close> with \<open>i + k * every < to\<close>, on natural numbers.
\<close>

definition all_succeed :: "env \<Rightarrow> bool" where
  "all_succeed env = (\<forall>tr c. respond env tr c = None)"

definition step_calls :: "uint64 \<Rightarrow> uint64 \<Rightarrow> call list" where
  "step_calls i every =
     RetireBlocks i (i + every) # BeginRw # WriteSnapshots
       # replicate block_prune_rounds PruneAncientBlocks @ [Commit]"

definition rounds :: "uint64 \<Rightarrow> uint64 \<Rightarrow> uint64 \<Rightarrow> nat" where
  "rounds i to every = (unat to - unat i + unat every - 1) div unat every"

text \<open>
  The calls of the history part of the retire command when nothing fails, and the calls
  before its loop.
\<close>

definition prune_history_calls :: "call list" where
  "prune_history_calls =
     concat (replicate history_prune_rounds [BeginRw, Agg_SetTx, Agg_Prune, Commit])"

definition watermark_calls :: "env \<Rightarrow> call list" where
  "watermark_calls env =
     [BeginRo, GetStageProgress, TxNums_Max (stage_progress env),
      SetTxNum (txnums_max env (stage_progress env)), Rollback]"

definition history_calls :: "env \<Rightarrow> call list" where
  "history_calls env =
     prune_history_calls @ [BuildMissedIndices] @ watermark_calls env
       @ [BuildFiles, MergeLoop] @ prune_history_calls"

definition setup_calls :: "call list" where
  "setup_calls = [MustOpen, ReopenWithDB, NewAggregator22, ReopenFiles, SetWorkers]"

text \<open>
  \<open>emits f S\<close>: whatever the environment answers, \<open>f\<close> only appends calls, and only
  calls from \<open>S\<close>.
\<close>

definition emits :: "(trace \<Rightarrow> error option outcome \<times> trace) \<Rightarrow> call set \<Rightarrow> bool" where
  "emits f S = (\<forall>tr. \<exists>s. snd (f tr) = tr @ s \<and> set s \<subseteq> S)"

definition prune_tx_calls :: "call set" where
  "prune_tx_calls = {BeginRw, Agg_SetTx, Agg_Prune, Commit, Rollback}"

text \<open>The phases of the history part that come before \<open>BuildFiles\<close>.\<close>

definition before_build :: "env \<Rightarrow> trace \<Rightarrow> error option outcome \<times> trace" where
  "before_build env =
     seq (seq (prune_history_loop history_prune_rounds env) (call env BuildMissedIndices))
         (set_watermark env)"

text \<open>The calls that the part of the retire command before the history part can make.\<close>

definition block_part_calls :: "call set" where
  "block_part_calls =
     {MustOpen, ReopenWithDB, NewAggregator22, ReopenFiles, SetWorkers, BeginRw, WriteSnapshots,
      PruneAncientBlocks, Commit, Rollback, HistoryV3_FromDB} \<union> range (\<lambda>(a, b). RetireBlocks a b)"

text \<open>
  The calls that mark the phases of the history part between its two prune phases, in
  the order of the source, and what a trace has of them.
\<close>

definition history_milestones :: "env \<Rightarrow> call list" where
  "history_milestones env =
     [BuildMissedIndices, SetTxNum (txnums_max env (stage_progress env)), BuildFiles, MergeLoop]"

definition milestones :: "env \<Rightarrow> trace \<Rightarrow> call list" where
  "milestones env s = filter (\<lambda>c. c \<in> set (history_milestones env)) s"

text \<open>
  \<open>marks env f m\<close>: \<open>f\<close> only appends calls; the milestones among them are \<open>m\<close> when
  \<open>f\<close> returns \<open>nil\<close>, and an initial part of \<open>m\<close> otherwise.
\<close>

definition marks :: "env \<Rightarrow> (trace \<Rightarrow> error option outcome \<times> trace) \<Rightarrow> call list \<Rightarrow> bool" where
  "marks env f m =
     (\<forall>tr. \<exists>s. snd (f tr) = tr @ s
        \<and> (if fst (f tr) = Returns None then milestones env s = m
            else (\<exists>n. milestones env s = take n m)))"

text \<open>
  The calls of the create command around \<open>snapshotBlocks\<close> when they succeed, and what
  it takes for them to succeed.
\<close>

definition create_setup_calls :: "call list" where
  "create_setup_calls = [MustExist Snap, MustExist SnapHistory, MustExist Tmp, MustOpen]"

definition persist_calls :: "call list" where
  "persist_calls =
     [ReopenFolder, NewAggregator22, ReopenFiles, SetWorkers, BeginRw, WriteSnapshots, Commit]"

definition succeed_on :: "env \<Rightarrow> call list \<Rightarrow> bool" where
  "succeed_on env cs = (\<forall>tr. list_all (\<lambda>c. respond env tr c = None) cs)"

text \<open>An environment in which \<open>snapshotsync.DumpBlocks\<close> fails and nothing else does.\<close>

definition dump_fails :: env where
  "dump_fails =
     quiet\<lparr>respond := (\<lambda>tr c. case c of DumpBlocks a b n \<Rightarrow> Some (External 1) | _ \<Rightarrow> None)\<rparr>"

text \<open>
  The upper bound in the words of the specification: the last key less the margin, zero
  when the key does not exceed it, rounded down to a multiple of the segment size.
\<close>

definition selected_upper_bound :: "nat \<Rightarrow> nat \<Rightarrow> nat \<Rightarrow> nat" where
  "selected_upper_bound lastKey margin segmentSize =
     ((lastKey - margin) div segmentSize) * segmentSize"

section \<open>turbo/app/snapshots.go: \<open>compress\<close> and \<open>uncompress\<close>\<close>

subsection \<open>The functions of Go's standard library that the two commands call\<close>

text \<open>
  \<open>binary.PutUvarint(buf, x)\<close>: seven bits to a byte, low bits first, the top bit of a
  byte set when more follow. The model returns the bytes \<open>buf[:n]\<close>.
\<close>

function PutUvarint :: "uint64 \<Rightarrow> byte list" where
  "PutUvarint x =
     (if x \<ge> 0x80 then (ucast x OR 0x80) # PutUvarint (drop_bit 7 x) else [ucast x])"
  by pat_completeness auto
termination
proof (relation "measure unat")
  show "wf (measure unat)" by simp
next
  fix x :: uint64
  assume "x \<ge> 0x80"
  then have "128 \<le> unat x" by (simp add: word_le_nat_alt)
  then have "unat x div 2 ^ 7 < unat x" by simp
  then show "(drop_bit 7 x, x) \<in> measure unat"
    by (simp add: unat_drop_bit_eq drop_bit_eq_div unat_div)
qed

text \<open>
  \<open>binary.ReadUvarint(r)\<close> on the bytes that are left of the input: the loop
  \<open>for i := 0; i < MaxVarintLen64; i++\<close> with its variables \<open>x\<close> and \<open>s\<close>. The result
  is the pair \<open>(x, err)\<close> and the input that remains. At the end of the input
  \<open>ReadByte\<close> fails with \<open>io.EOF\<close>, which becomes \<open>io.ErrUnexpectedEOF\<close> after the
  first byte (releases of Go before this conversion return \<open>io.EOF\<close> there; the two
  differ on truncated input only).
\<close>

fun ReadUvarint_from :: "nat \<Rightarrow> uint64 \<Rightarrow> nat \<Rightarrow> byte list \<Rightarrow> (uint64 \<times> error option) \<times> byte list" where
  "ReadUvarint_from i x s [] =
     (if i < 10 then ((x, Some (if i > 0 then ErrUnexpectedEOF else EOF)), [])
      else ((x, Some ErrOverflow), []))"
| "ReadUvarint_from i x s (b # r) =
     (if i < 10 then
        (if b < 0x80 then
           (if i = 9 \<and> b > 1 then ((x, Some ErrOverflow), r)
            else ((x OR push_bit s (ucast b), None), r))
         else ReadUvarint_from (i + 1) (x OR push_bit s (ucast (b AND 0x7f))) (s + 7) r)
      else ((x, Some ErrOverflow), b # r))"

definition ReadUvarint :: "byte list \<Rightarrow> (uint64 \<times> error option) \<times> byte list" where
  "ReadUvarint r = ReadUvarint_from 0 0 0 r"

text \<open>
  \<open>io.ReadFull(r, buf)\<close> for a buffer of \<open>n\<close> bytes: \<open>io.EOF\<close> when nothing could
  be read, \<open>io.ErrUnexpectedEOF\<close> when the input ends early.
\<close>

definition ReadFull :: "nat \<Rightarrow> byte list \<Rightarrow> (byte list \<times> error option) \<times> byte list" where
  "ReadFull n r =
     (if n \<le> length r then ((take n r, None), drop n r)
      else if r = [] then (([], Some EOF), [])
      else ((r, Some ErrUnexpectedEOF), []))"

subsection \<open>The codec and the files\<close>

text \<open>
  Modelled from the spec: the compressor and the decompressor of package \<open>compress\<close> are
  not in this repository's files. The spec has the codec as a capability that "builds a
  segment file by ingesting an ordered sequence of byte records, and later serves a
  forward-only cursor over the decoded record sequence". A segment file is therefore the
  sequence of its words, \<open>AddWord\<close> appends one, and the getter's \<open>HasNext\<close>/\<open>Next\<close>
  walk them in order. The file system maps paths to segment files.
\<close>

type_synonym segment = "byte list list"
type_synonym files = "string \<rightharpoonup> segment"

text \<open>
  What else can happen to the two commands: the errors of the codec's calls and of the
  writes to standard output, and whether the context is done when the loop polls it for
  the \<open>k\<close>-th time.
\<close>

record io_env =
  NewCompressor_err :: "error option"
  AddWord_err :: "segment \<Rightarrow> byte list \<Rightarrow> error option"
  Compress_err :: "segment \<Rightarrow> error option"
  NewDecompressor_err :: "string \<Rightarrow> error option"
  Write_err :: "byte list \<Rightarrow> error option"
  ctx_done :: "nat \<Rightarrow> bool"

subsection \<open>\<open>doCompress\<close>\<close>

text \<open>
  The loop \<open>for l, err = binary.ReadUvarint(r); err == nil; ...\<close>, with the words added
  so far and the number of polls of the context, followed by the test of \<open>err\<close> after
  the loop. For \<open>l \<ge> 2^63\<close> the conversion \<open>int(l)\<close> is negative, the buffer is
  not replaced and \<open>buf[:l]\<close> panics.
\<close>

function compress_loop :: "io_env \<Rightarrow> nat \<Rightarrow> segment \<Rightarrow> byte list \<Rightarrow> error option outcome \<times> segment" where
  "compress_loop env k c r =
     (case ReadUvarint r of
        ((l, Some err), r1) \<Rightarrow>
          (if err \<noteq> EOF then (Returns (Some err), c) else (Returns None, c))
      | ((l, None), r1) \<Rightarrow>
          (if 2 ^ 63 \<le> unat l then (Panics (RuntimePanic ''slice bounds out of range''), c)
           else
             (case ReadFull (unat l) r1 of
                ((buf, Some err), r2) \<Rightarrow> (Returns (Some err), c)
              | ((buf, None), r2) \<Rightarrow>
                  (case AddWord_err env c buf of
                     Some err \<Rightarrow> (Returns (Some err), c)
                   | None \<Rightarrow>
                       (if ctx_done env k then (Returns (Some ContextCanceled), c @ [buf])
                        else compress_loop env (k + 1) (c @ [buf]) r2)))))"
  by pat_completeness auto
termination
  apply (relation "measure (\<lambda>(env, k, c, r). length r)")
   apply simp
  subgoal premises prems for env k c r x r1 l ya xb r2 buf yb
  proof -
    have shrink: "fst (ReadUvarint_from i a s inp) = (v, None)
        \<Longrightarrow> length (snd (ReadUvarint_from i a s inp)) < length inp" for i a s inp v
      by (induction inp arbitrary: i a s) (auto split: if_splits simp: less_Suc_eq)
    from prems have a: "ReadUvarint r = ((l, None), r1)"
      and b: "ReadFull (unat l) r1 = ((buf, None), r2)"
      by (metis)+
    from a have "length r1 < length r"
      using shrink[of 0 0 0 r l] by (simp add: ReadUvarint_def)
    moreover from b have "length r2 \<le> length r1"
      by (auto simp: ReadFull_def split: if_splits)
    ultimately show ?thesis by simp
  qed
  done


declare PutUvarint.simps [simp del]
declare compress_loop.simps [simp del]

text \<open>
  \<open>doCompress\<close>: the argument check, the compressor, the loop over standard input and
  \<open>c.Compress()\<close>, which writes the segment file at the path given.
\<close>

definition doCompress :: "io_env \<Rightarrow> string list \<Rightarrow> byte list \<Rightarrow> files \<Rightarrow> error option outcome \<times> files" where
  "doCompress env args stdin fs =
     (if length args \<noteq> 1 then (Returns (Some ExpectingSegFilePath), fs)
      else
        (case NewCompressor_err env of
           Some err \<Rightarrow> (Returns (Some err), fs)
         | None \<Rightarrow>
            (case compress_loop env 0 [] stdin of
               (Returns None, c) \<Rightarrow>
                 (case Compress_err env c of
                    Some err \<Rightarrow> (Returns (Some err), fs)
                  | None \<Rightarrow> (Returns None, fs(hd args \<mapsto> c)))
             | (r, c) \<Rightarrow> (r, fs))))"

subsection \<open>\<open>doUncompress\<close>\<close>

text \<open>
  The loop \<open>for g.HasNext()\<close> over the words of the segment, with the bytes written to
  standard output so far: the length as a uvarint, then the word.
\<close>

fun uncompress_loop :: "io_env \<Rightarrow> nat \<Rightarrow> segment \<Rightarrow> byte list \<Rightarrow> error option outcome \<times> byte list" where
  "uncompress_loop env k [] out = (Returns None, out)"
| "uncompress_loop env k (buf # ws) out =
     (case Write_err env out of
        Some err \<Rightarrow> (Returns (Some err), out)
      | None \<Rightarrow>
         (case Write_err env (out @ PutUvarint (of_nat (length buf))) of
            Some err \<Rightarrow> (Returns (Some err), out @ PutUvarint (of_nat (length buf)))
          | None \<Rightarrow>
              (if ctx_done env k
               then (Returns (Some ContextCanceled), out @ PutUvarint (of_nat (length buf)) @ buf)
               else uncompress_loop env (k + 1) ws (out @ PutUvarint (of_nat (length buf)) @ buf))))"

definition doUncompress :: "io_env \<Rightarrow> string list \<Rightarrow> files \<Rightarrow> error option outcome \<times> byte list" where
  "doUncompress env args fs =
     (if length args \<noteq> 1 then (Returns (Some ExpectingSegFilePath), [])
      else
        (case fs (hd args) of
           None \<Rightarrow> (Returns (Some ErrNotExist), [])
         | Some ws \<Rightarrow>
            (case NewDecompressor_err env (hd args) of
               Some err \<Rightarrow> (Returns (Some err), [])
             | None \<Rightarrow> uncompress_loop env 0 ws [])))"

text \<open>
  The stream format in the words of the specification: for each record its length as a
  uvarint, then its bytes. And the runs of the two commands in which no call fails and
  the context is never done.
\<close>

definition wire_format :: "byte list list \<Rightarrow> byte list" where
  "wire_format ws = concat (map (\<lambda>w. PutUvarint (of_nat (length w)) @ w) ws)"

definition no_io_failure :: "io_env \<Rightarrow> bool" where
  "no_io_failure env =
     (NewCompressor_err env = None \<and> (\<forall>c w. AddWord_err env c w = None)
      \<and> (\<forall>c. Compress_err env c = None) \<and> (\<forall>p. NewDecompressor_err env p = None)
      \<and> (\<forall>out. Write_err env out = None) \<and> (\<forall>k. \<not> ctx_done env k))"

definition io_quiet :: io_env where
  "io_quiet = \<lparr>NewCompressor_err = None, AddWord_err = (\<lambda>c w. None), Compress_err = (\<lambda>c. None),
               NewDecompressor_err = (\<lambda>p. None), Write_err = (\<lambda>out. None),
               ctx_done = (\<lambda>k. False)\<rparr>"

section \<open>Properties of the access-list tracer\<close>

lemma present_iff: "present al a \<longleftrightarrow> a \<in> addresses al"
proof -
  have "present al a \<longleftrightarrow> map_of al a \<noteq> None"
    by (simp add: present_def split: option.splits)
  then show ?thesis
    by (simp add: map_of_eq_None_iff addresses_def)
qed

lemma index_al_entry:
  "distinct (map fst al) \<Longrightarrow> e \<in> set al \<Longrightarrow> index_al al (fst e) = snd e"
  by (cases e) (simp add: index_al_def)

lemma index_al_absent: "a \<notin> addresses al \<Longrightarrow> index_al al a = []"
  by (simp add: index_al_def addresses_def map_of_eq_None_iff[THEN iffD2])

lemma index_al_distinct: "wf_accessList al \<Longrightarrow> distinct (index_al al a)"
  by (auto simp: wf_accessList_def index_al_def list_all_iff split: option.splits dest!: map_of_SomeD)

lemma slots_equal_iff:
  assumes "distinct s" "distinct t"
  shows "slots_equal s t \<longleftrightarrow> set s = set t"
proof
  assume "slots_equal s t"
  then show "set s = set t"
    by (auto simp: slots_equal_def list_all_iff split: if_splits)
next
  assume eq: "set s = set t"
  with assms have "length s = length t"
    by (metis distinct_card)
  with eq show "slots_equal s t"
    by (simp add: slots_equal_def list_all_iff)
qed

lemma addresses_length:
  assumes "distinct (map fst a)" "distinct (map fst b)" "addresses a = addresses b"
  shows "length a = length b"
proof -
  have "length (map fst a) = length (map fst b)"
    using assms unfolding addresses_def by (metis distinct_card)
  then show ?thesis by simp
qed

lemma slots_loop_iff:
  assumes "wf_accessList a" "wf_accessList b"
  shows "list_all (\<lambda>e. slots_equal (snd e) (index_al b (fst e))) a
         \<longleftrightarrow> (\<forall>x \<in> addresses a. slots_of a x = slots_of b x)"
proof -
  have d: "distinct (map fst a)" using assms(1) by (simp add: wf_accessList_def)
  have "list_all (\<lambda>e. slots_equal (snd e) (index_al b (fst e))) a
        \<longleftrightarrow> (\<forall>e \<in> set a. set (snd e) = set (index_al b (fst e)))"
    unfolding list_all_iff
  proof (intro ball_cong refl)
    fix e assume "e \<in> set a"
    then have "distinct (snd e)" using assms(1) by (simp add: wf_accessList_def list_all_iff)
    then show "slots_equal (snd e) (index_al b (fst e)) \<longleftrightarrow> set (snd e) = set (index_al b (fst e))"
      by (rule slots_equal_iff) (rule index_al_distinct[OF assms(2)])
  qed
  also have "\<dots> \<longleftrightarrow> (\<forall>e \<in> set a. slots_of a (fst e) = slots_of b (fst e))"
    by (simp add: slots_of_def index_al_entry[OF d])
  also have "\<dots> \<longleftrightarrow> (\<forall>x \<in> addresses a. slots_of a x = slots_of b x)"
    by (auto simp: addresses_def)
  finally show ?thesis .
qed

lemma accessList_equal_iff:
  assumes "wf_accessList a" "wf_accessList b"
  shows "accessList_equal a b \<longleftrightarrow>
         addresses a = addresses b \<and> (\<forall>x \<in> addresses a. slots_of a x = slots_of b x)"
proof -
  have da: "distinct (map fst a)" and db: "distinct (map fst b)"
    using assms by (simp_all add: wf_accessList_def)
  have sub1: "list_all (\<lambda>e. present b (fst e)) a \<longleftrightarrow> addresses a \<subseteq> addresses b"
    by (auto simp: list_all_iff present_iff addresses_def)
  have sub2: "list_all (\<lambda>e. present a (fst e)) b \<longleftrightarrow> addresses b \<subseteq> addresses a"
    by (auto simp: list_all_iff present_iff addresses_def)
  show ?thesis
  proof (cases "addresses a = addresses b")
    case True
    then have "length a = length b" by (rule addresses_length[OF da db])
    with True show ?thesis
      by (simp add: accessList_equal_def sub1 sub2 slots_loop_iff[OF assms])
  next
    case False
    then show ?thesis
      by (auto simp: accessList_equal_def sub1 sub2)
  qed
qed


lemma map_of_snoc_absent:
  "map_of al a = None \<Longrightarrow> map_of (al @ [(a, v)]) x = (if x = a then Some v else map_of al x)"
  by (auto simp: map_add_def split: option.splits)

lemma addresses_addAddress: "addresses (addAddress al a) = insert a (addresses al)"
  by (auto simp: addAddress_def present_iff) (auto simp: addresses_def)

lemma index_al_addAddress: "index_al (addAddress al a) x = index_al al x"
proof (cases "present al a")
  case True
  then show ?thesis by (simp add: addAddress_def)
next
  case False
  then have "map_of al a = None" by (simp add: present_def split: option.splits)
  then show ?thesis
    by (simp add: addAddress_def False index_al_def map_of_snoc_absent del: map_of_append)
qed

lemma slots_of_addAddress: "slots_of (addAddress al a) x = slots_of al x"
  by (simp add: slots_of_def index_al_addAddress)

lemma wf_addAddress: "wf_accessList al \<Longrightarrow> wf_accessList (addAddress al a)"
  by (auto simp: addAddress_def wf_accessList_def present_iff addresses_def)

lemma map_of_putmap:
  "map_of (map (\<lambda>e. if fst e = a then (fst e, put_slot (snd e) s) else e) al) x
   = (if x = a then map_option (\<lambda>v. put_slot v s) (map_of al x) else map_of al x)"
  by (induction al) auto

lemma fst_putmap:
  "map fst (map (\<lambda>e. if fst e = a then (fst e, put_slot (snd e) s) else e) al) = map fst al"
  by (induction al) auto

lemma addresses_addSlot: "addresses (addSlot al a s) = insert a (addresses al)"
  unfolding addSlot_def addresses_def fst_putmap
  using addresses_addAddress[of al a] by (simp only: addresses_def)

lemma present_addAddress: "present (addAddress al a) a"
  by (simp add: present_iff addresses_addAddress)

lemma set_put_slot: "set (put_slot slots s) = insert s (set slots)"
  by (auto simp: put_slot_def)

lemma distinct_put_slot: "distinct slots \<Longrightarrow> distinct (put_slot slots s)"
  by (simp add: put_slot_def)

lemma slots_of_addSlot:
  "slots_of (addSlot al a s) x = (if x = a then insert s (slots_of al a) else slots_of al x)"
proof -
  obtain v where v: "map_of (addAddress al a) a = Some v"
    using present_addAddress[of al a] by (auto simp: present_def split: option.splits)
  show ?thesis
  proof (cases "x = a")
    case True
    have "slots_of (addSlot al a s) a = insert s (slots_of (addAddress al a) a)"
      unfolding slots_of_def index_al_def addSlot_def map_of_putmap
      by (simp add: v set_put_slot)
    with True show ?thesis by (simp add: slots_of_addAddress)
  next
    case False
    have "slots_of (addSlot al a s) x = slots_of (addAddress al a) x"
      unfolding slots_of_def index_al_def addSlot_def map_of_putmap
      using False by simp
    with False show ?thesis by (simp add: slots_of_addAddress)
  qed
qed

lemma wf_putmap:
  assumes "wf_accessList al"
  shows "wf_accessList (map (\<lambda>e. if fst e = a then (fst e, put_slot (snd e) s) else e) al)"
proof -
  have "list_all (\<lambda>e. distinct (snd e))
          (map (\<lambda>e. if fst e = a then (fst e, put_slot (snd e) s) else e) al)"
    using assms by (auto simp: wf_accessList_def list_all_iff distinct_put_slot)
  then show ?thesis
    unfolding wf_accessList_def fst_putmap using assms by (simp add: wf_accessList_def)
qed

lemma wf_addSlot: "wf_accessList al \<Longrightarrow> wf_accessList (addSlot al a s)"
  unfolding addSlot_def by (rule wf_putmap) (rule wf_addAddress)

lemma wf_newAccessList: "wf_accessList newAccessList"
  by (simp add: newAccessList_def wf_accessList_def)


lemma addresses_addSlots:
  "addresses (foldl (\<lambda>l' slot. addSlot l' a slot) l ks)
   = (if ks = [] then addresses l else insert a (addresses l))"
  by (induction ks arbitrary: l) (auto simp: addresses_addSlot)

lemma slots_of_addSlots:
  "slots_of (foldl (\<lambda>l' slot. addSlot l' a slot) l ks) x
   = (if x = a then slots_of l a \<union> set ks else slots_of l x)"
  by (induction ks arbitrary: l) (auto simp: slots_of_addSlot)

lemma wf_addSlots:
  "wf_accessList l \<Longrightarrow> wf_accessList (foldl (\<lambda>l' slot. addSlot l' a slot) l ks)"
  by (induction ks arbitrary: l) (auto simp: wf_addSlot)

lemma addresses_add_tuple:
  "addresses (add_tuple ex l t)
   = addresses l \<union> (if Address t \<notin> ex \<or> StorageKeys t \<noteq> [] then {Address t} else {})"
  by (auto simp: add_tuple_def addresses_addSlots addresses_addAddress)

lemma slots_of_add_tuple:
  "slots_of (add_tuple ex l t) x
   = slots_of l x \<union> (if x = Address t then set (StorageKeys t) else {})"
  by (auto simp: add_tuple_def slots_of_addSlots slots_of_addAddress)

lemma wf_add_tuple: "wf_accessList l \<Longrightarrow> wf_accessList (add_tuple ex l t)"
  by (simp add: add_tuple_def wf_addSlots wf_addAddress)

lemma addresses_add_tuples:
  "addresses (foldl (add_tuple ex) l acl)
   = addresses l \<union> set (map Address (filter (\<lambda>t. Address t \<notin> ex \<or> StorageKeys t \<noteq> []) acl))"
  by (induction acl arbitrary: l) (simp_all add: addresses_add_tuple Un_assoc)

lemma slots_of_add_tuples:
  "slots_of (foldl (add_tuple ex) l acl) x
   = slots_of l x \<union> set (concat (map StorageKeys (filter (\<lambda>t. Address t = x) acl)))"
  by (induction acl arbitrary: l) (simp_all add: slots_of_add_tuple Un_assoc)

lemma wf_add_tuples: "wf_accessList l \<Longrightarrow> wf_accessList (foldl (add_tuple ex) l acl)"
  by (induction acl arbitrary: l) (auto simp: wf_add_tuple)

lemma excl_loop: "foldl (\<lambda>e addr. insert addr e) s ps = s \<union> set ps"
  by (induction ps arbitrary: s) auto

lemma excl_NewAccessListTracer:
  "excl (NewAccessListTracer acl from to precompiles) = {from, to} \<union> set precompiles"
  by (simp add: NewAccessListTracer_def Let_def excl_loop)

lemma list_NewAccessListTracer:
  "list (NewAccessListTracer acl from to precompiles)
   = foldl (add_tuple ({from, to} \<union> set precompiles)) newAccessList acl"
  by (simp add: NewAccessListTracer_def Let_def excl_loop)

lemma wf_NewAccessListTracer: "wf_accessList (list (NewAccessListTracer acl from to precompiles))"
  by (simp add: list_NewAccessListTracer wf_add_tuples wf_newAccessList)

lemma addresses_newAccessList: "addresses newAccessList = {}"
  by (simp add: newAccessList_def addresses_def)

lemma slots_of_newAccessList: "slots_of newAccessList x = {}"
  by (simp add: newAccessList_def slots_of_def index_al_def)

text \<open>
  Claim C10. The exclusion set of a new tracer is the sender, the recipient and the
  precompiles. An entry of the initial access list whose address is excluded but which
  carries at least one storage key is still inserted, with all its slots, because
  \<open>addSlot\<close> adds the address unconditionally; an excluded address whose entries all
  have no storage key stays out of the list. Nothing else is kept out: an address is in
  the list of the new tracer exactly when some entry of the initial list has that address
  and is either not excluded or carries a storage key, and the slots of an address are
  exactly the storage keys of the entries that have that address. The list is well
  formed.
\<close>

theorem NewAccessListTracer_excluded_with_keys:
  "excl (NewAccessListTracer acl from to precompiles) = {from, to} \<union> set precompiles
     \<and> (\<forall>t \<in> set acl. Address t \<in> {from, to} \<union> set precompiles \<and> StorageKeys t \<noteq> [] \<longrightarrow>
            present (list (NewAccessListTracer acl from to precompiles)) (Address t)
          \<and> set (StorageKeys t)
              \<subseteq> slots_of (list (NewAccessListTracer acl from to precompiles)) (Address t))
     \<and> (\<forall>a \<in> {from, to} \<union> set precompiles.
            (\<forall>t \<in> set acl. Address t = a \<longrightarrow> StorageKeys t = []) \<longrightarrow>
            \<not> present (list (NewAccessListTracer acl from to precompiles)) a)
     \<and> (\<forall>a. present (list (NewAccessListTracer acl from to precompiles)) a \<longleftrightarrow>
            (\<exists>t \<in> set acl. Address t = a
               \<and> (a \<notin> {from, to} \<union> set precompiles \<or> StorageKeys t \<noteq> [])))
     \<and> (\<forall>a. slots_of (list (NewAccessListTracer acl from to precompiles)) a
            = set (concat (map StorageKeys (filter (\<lambda>t. Address t = a) acl))))
     \<and> wf_accessList (list (NewAccessListTracer acl from to precompiles))"
proof (intro conjI ballI impI allI)
  show "excl (NewAccessListTracer acl from to precompiles) = {from, to} \<union> set precompiles"
    by (rule excl_NewAccessListTracer)
next
  fix t assume "t \<in> set acl" "Address t \<in> {from, to} \<union> set precompiles \<and> StorageKeys t \<noteq> []"
  then show "present (list (NewAccessListTracer acl from to precompiles)) (Address t)"
    unfolding present_iff list_NewAccessListTracer addresses_add_tuples by auto
next
  fix t assume "t \<in> set acl" "Address t \<in> {from, to} \<union> set precompiles \<and> StorageKeys t \<noteq> []"
  then show "set (StorageKeys t)
      \<subseteq> slots_of (list (NewAccessListTracer acl from to precompiles)) (Address t)"
    unfolding list_NewAccessListTracer slots_of_add_tuples by auto
next
  fix a assume "a \<in> {from, to} \<union> set precompiles"
    "\<forall>t \<in> set acl. Address t = a \<longrightarrow> StorageKeys t = []"
  then show "\<not> present (list (NewAccessListTracer acl from to precompiles)) a"
    unfolding present_iff list_NewAccessListTracer addresses_add_tuples addresses_newAccessList
    by auto
next
  fix a
  show "present (list (NewAccessListTracer acl from to precompiles)) a \<longleftrightarrow>
            (\<exists>t \<in> set acl. Address t = a
               \<and> (a \<notin> {from, to} \<union> set precompiles \<or> StorageKeys t \<noteq> []))"
    unfolding present_iff list_NewAccessListTracer addresses_add_tuples addresses_newAccessList
    by auto
next
  fix a
  show "slots_of (list (NewAccessListTracer acl from to precompiles)) a
            = set (concat (map StorageKeys (filter (\<lambda>t. Address t = a) acl)))"
    unfolding list_NewAccessListTracer slots_of_add_tuples slots_of_newAccessList
    by simp
next
  show "wf_accessList (list (NewAccessListTracer acl from to precompiles))"
    by (rule wf_NewAccessListTracer)
qed

text \<open>
  Claim C9. On well-formed access lists (every key once, as in a Go map),
  \<open>equal\<close> returns true exactly when both lists hold the same set of addresses and, for
  every address, the same set of storage slots. Hence it is symmetric, and its result does
  not change when either list is replaced by one with the same content in another
  insertion order.
\<close>

theorem accessList_equal_sets:
  assumes "wf_accessList a" "wf_accessList b"
  shows "(accessList_equal a b \<longleftrightarrow>
            addresses a = addresses b \<and> (\<forall>x \<in> addresses a. slots_of a x = slots_of b x))
       \<and> accessList_equal a b = accessList_equal b a
       \<and> (\<forall>a' b'. wf_accessList a' \<and> wf_accessList b'
              \<and> addresses a' = addresses a \<and> slots_of a' = slots_of a
              \<and> addresses b' = addresses b \<and> slots_of b' = slots_of b
            \<longrightarrow> accessList_equal a' b' = accessList_equal a b)"
proof (intro conjI allI impI)
  show "accessList_equal a b \<longleftrightarrow>
          addresses a = addresses b \<and> (\<forall>x \<in> addresses a. slots_of a x = slots_of b x)"
    by (rule accessList_equal_iff[OF assms])
next
  show "accessList_equal a b = accessList_equal b a"
    unfolding accessList_equal_iff[OF assms] accessList_equal_iff[OF assms(2,1)] by auto
next
  fix a' b'
  assume h: "wf_accessList a' \<and> wf_accessList b'
              \<and> addresses a' = addresses a \<and> slots_of a' = slots_of a
              \<and> addresses b' = addresses b \<and> slots_of b' = slots_of b"
  then have "wf_accessList a'" "wf_accessList b'" by simp_all
  from accessList_equal_iff[OF this] h show "accessList_equal a' b' = accessList_equal a b"
    unfolding accessList_equal_iff[OF assms] by simp
qed


text \<open>Claim C9 at two lists with the same content in different orders.\<close>

theorem accessList_equal_sets_witness:
  "wf_accessList [(1, [7, 8]), (2, [])] \<and> wf_accessList [(2, []), (1, [8, 7])]
   \<and> accessList_equal [(1, [7, 8]), (2, [])] [(2, []), (1, [8, 7])]
   \<and> accessList_equal [(2, []), (1, [8, 7])] [(1, [7, 8]), (2, [])]
   \<and> addresses [(1, [7, 8]), (2, [])] = addresses [(2, []), (1, [8, 7])]"
proof -
  have a: "wf_accessList [(1, [7, 8]), (2, [])]" by (simp add: wf_accessList_def)
  have b: "wf_accessList [(2, []), (1, [8, 7])]" by (simp add: wf_accessList_def)
  have e: "accessList_equal [(1, [7, 8]), (2, [])] [(2, []), (1, [8, 7])]"
    by (simp add: accessList_equal_def slots_equal_def present_def index_al_def)
  from accessList_equal_sets[OF a b] a b e show ?thesis by blast
qed

text \<open>
  Claim C10 at a list that holds the sender with one key, the bare recipient, an ordinary
  address without keys and an ordinary address with two keys; the precompile is not in
  the list.
\<close>

theorem NewAccessListTracer_excluded_with_keys_witness:
  "present (list (NewAccessListTracer
       [\<lparr>Address = 1, StorageKeys = [5]\<rparr>, \<lparr>Address = 2, StorageKeys = []\<rparr>,
        \<lparr>Address = 3, StorageKeys = []\<rparr>, \<lparr>Address = 4, StorageKeys = [6, 7]\<rparr>] 1 2 [9])) 1
   \<and> 5 \<in> slots_of (list (NewAccessListTracer
       [\<lparr>Address = 1, StorageKeys = [5]\<rparr>, \<lparr>Address = 2, StorageKeys = []\<rparr>,
        \<lparr>Address = 3, StorageKeys = []\<rparr>, \<lparr>Address = 4, StorageKeys = [6, 7]\<rparr>] 1 2 [9])) 1
   \<and> \<not> present (list (NewAccessListTracer
       [\<lparr>Address = 1, StorageKeys = [5]\<rparr>, \<lparr>Address = 2, StorageKeys = []\<rparr>,
        \<lparr>Address = 3, StorageKeys = []\<rparr>, \<lparr>Address = 4, StorageKeys = [6, 7]\<rparr>] 1 2 [9])) 2
   \<and> present (list (NewAccessListTracer
       [\<lparr>Address = 1, StorageKeys = [5]\<rparr>, \<lparr>Address = 2, StorageKeys = []\<rparr>,
        \<lparr>Address = 3, StorageKeys = []\<rparr>, \<lparr>Address = 4, StorageKeys = [6, 7]\<rparr>] 1 2 [9])) 3
   \<and> present (list (NewAccessListTracer
       [\<lparr>Address = 1, StorageKeys = [5]\<rparr>, \<lparr>Address = 2, StorageKeys = []\<rparr>,
        \<lparr>Address = 3, StorageKeys = []\<rparr>, \<lparr>Address = 4, StorageKeys = [6, 7]\<rparr>] 1 2 [9])) 4
   \<and> slots_of (list (NewAccessListTracer
       [\<lparr>Address = 1, StorageKeys = [5]\<rparr>, \<lparr>Address = 2, StorageKeys = []\<rparr>,
        \<lparr>Address = 3, StorageKeys = []\<rparr>, \<lparr>Address = 4, StorageKeys = [6, 7]\<rparr>] 1 2 [9])) 4 = {6, 7}
   \<and> \<not> present (list (NewAccessListTracer
       [\<lparr>Address = 1, StorageKeys = [5]\<rparr>, \<lparr>Address = 2, StorageKeys = []\<rparr>,
        \<lparr>Address = 3, StorageKeys = []\<rparr>, \<lparr>Address = 4, StorageKeys = [6, 7]\<rparr>] 1 2 [9])) 9"
proof -
  let ?acl = "[\<lparr>Address = 1, StorageKeys = [5]\<rparr>, \<lparr>Address = 2, StorageKeys = []\<rparr>,
          \<lparr>Address = 3, StorageKeys = []\<rparr>, \<lparr>Address = 4, StorageKeys = [6, 7]\<rparr>]"
  let ?L = "list (NewAccessListTracer ?acl 1 2 [9])"
  note T = NewAccessListTracer_excluded_with_keys[of ?acl 1 2 "[9]"]
  from T have p: "present ?L a \<longleftrightarrow>
      (\<exists>t \<in> set ?acl. Address t = a \<and> (a \<notin> {1, 2} \<union> set [9] \<or> StorageKeys t \<noteq> []))" for a
    by blast
  from T have s: "slots_of ?L a
      = set (concat (map StorageKeys (filter (\<lambda>t. Address t = a) ?acl)))" for a
    by blast
  have "present ?L 1" "\<not> present ?L 2" "present ?L 3" "present ?L 4" "\<not> present ?L 9"
    by (simp_all add: p)
  moreover have "5 \<in> slots_of ?L 1" "slots_of ?L 4 = {6, 7}"
    by (simp_all add: s)
  ultimately show ?thesis by simp
qed

text \<open>
  Claim C8, as amended. The three unimplemented hooks \<open>CaptureAccountWrite\<close>,
  \<open>CaptureStart\<close> and \<open>CaptureEnter\<close> panic with the message \<open>implement me\<close>; none
  of them returns an error value. The other hooks modelled here return normally.
\<close>

theorem tracer_hooks_panic:
  "aborts (CaptureAccountWrite a account)
   \<and> \<not> returns_error (CaptureAccountWrite a account)
   \<and> aborts (CaptureStart a from to precompile create)
   \<and> aborts (CaptureEnter a from to precompile create)
   \<and> CaptureAccountWrite a account = Panics (PanicMsg ''implement me'')
   \<and> CaptureStart a from to precompile create = Panics (PanicMsg ''implement me'')
   \<and> CaptureEnter a from to precompile create = Panics (PanicMsg ''implement me'')
   \<and> CaptureAccountRead a account = Returns None
   \<and> CaptureTxStart a gas = Returns () \<and> CaptureTxEnd a gas = Returns ()
   \<and> CaptureEnd a output gas err = Returns () \<and> CaptureExit a output gas err = Returns ()
   \<and> CaptureSelfDestruct a from to = Returns ()"
  by (simp add: CaptureAccountWrite_def CaptureStart_def CaptureEnter_def CaptureAccountRead_def
      CaptureTxStart_def CaptureTxEnd_def CaptureEnd_def CaptureExit_def CaptureSelfDestruct_def)

text \<open>
  Claim C8 as stated fails: on the empty tracer and the zero address
  \<open>CaptureAccountWrite\<close> aborts and returns no error variant.
\<close>

theorem CaptureAccountWrite_aborts_counterexample:
  "aborts (CaptureAccountWrite \<lparr>excl = {}, list = []\<rparr> 0)
   \<and> \<not> returns_error (CaptureAccountWrite \<lparr>excl = {}, list = []\<rparr> 0)"
  by (simp add: CaptureAccountWrite_def)

section \<open>Properties of the database commands\<close>

subsection \<open>Runs in which every call succeeds\<close>

lemma call_ok: "all_succeed env \<Longrightarrow> call env c tr = (Returns None, tr @ [c])"
  by (simp add: call_def all_succeed_def)

lemma must_ok: "all_succeed env \<Longrightarrow> must env c tr = (Returns None, tr @ [c])"
  by (simp add: must_def all_succeed_def)

lemma seq_ok: "f tr = (Returns None, tr') \<Longrightarrow> seq f g tr = g tr'"
  by (simp add: seq_def)

lemma seq_stop: "f tr = (r, tr') \<Longrightarrow> r \<noteq> Returns None \<Longrightarrow> seq f g tr = (r, tr')"
  by (auto simp: seq_def split: outcome.splits option.splits)

lemma Update_ok:
  "all_succeed env \<Longrightarrow> f (tr @ [BeginRw]) = (Returns None, tr @ BeginRw # body)
   \<Longrightarrow> Update env f tr = (Returns None, tr @ BeginRw # body @ [Commit])"
  by (simp add: Update_def call_ok)

lemma prune_loop_ok:
  "all_succeed env \<Longrightarrow> prune_loop n env tr = (Returns None, tr @ replicate n PruneAncientBlocks)"
proof (induction n arbitrary: tr)
  case 0
  then show ?case by simp
next
  case (Suc n)
  then show ?case
    by (simp add: seq_ok[OF call_ok] replicate_app_Cons_same)
qed

lemma retire_step_ok:
  assumes "all_succeed env"
  shows "retire_step env i every tr = (Returns None, tr @ step_calls i every)"
proof -
  let ?tr1 = "tr @ [RetireBlocks i (i + every)]"
  have body: "seq (call env WriteSnapshots) (prune_loop block_prune_rounds env) (?tr1 @ [BeginRw])
        = (Returns None, ?tr1 @ BeginRw # WriteSnapshots # replicate block_prune_rounds PruneAncientBlocks)"
    by (simp add: seq_ok[OF call_ok[OF assms]] prune_loop_ok[OF assms])
  have upd: "Update env (seq (call env WriteSnapshots) (prune_loop block_prune_rounds env)) ?tr1
        = (Returns None, ?tr1 @ BeginRw # (WriteSnapshots # replicate block_prune_rounds PruneAncientBlocks) @ [Commit])"
    using assms body by (rule Update_ok)
  show ?thesis
    unfolding retire_step_def
    by (simp add: seq_ok[OF must_ok[OF assms]] upd step_calls_def)
qed


lemma ceil_step:
  fixes a t e :: nat
  assumes "a < t" "0 < e"
  shows "(t - a + e - 1) div e = Suc ((t - (a + e) + e - 1) div e)"
proof (cases "a + e \<le> t")
  case True
  then obtain r where t: "t = a + e + r" by (metis le_Suc_ex)
  define q where "q = r + e - 1"
  have "t - a + e - 1 = q + e"
    using assms(2) unfolding t q_def by linarith
  moreover have "t - (a + e) + e - 1 = q"
    unfolding t q_def by simp
  moreover have "(q + e) div e = Suc (q div e)"
    using assms(2) div_add_self2[of e q] by simp
  ultimately show ?thesis by (simp only:)
next
  case False
  then have z: "t - (a + e) = 0" by simp
  have "e \<le> t - a + e - 1" "t - a + e - 1 < 2 * e" using assms False by simp_all
  then have "(t - a + e - 1) div e = 1"
    by (intro div_nat_eqI) simp_all
  then show ?thesis using assms(2) by (simp only: z) simp
qed

lemma unat_plus_no_wrap:
  fixes i every :: uint64
  assumes "unat i + unat every < 2 ^ 64"
  shows "unat (i + every) = unat i + unat every"
  using assms by (simp add: unat_word_ariths)

lemma rounds_step:
  assumes "i < to" "0 < every" "unat to + unat every \<le> 2 ^ 64"
  shows "rounds i to every = Suc (rounds (i + every) to every)"
proof -
  have lt: "unat i < unat to" using assms(1) by (simp add: word_less_nat_alt)
  have e: "0 < unat every" using assms(2) by (simp add: word_less_nat_alt)
  have "unat i + unat every < 2 ^ 64" using lt assms(3) by simp
  then have "unat (i + every) = unat i + unat every" by (rule unat_plus_no_wrap)
  then show ?thesis unfolding rounds_def using ceil_step[OF lt e] by simp
qed

lemma rounds_done: "\<not> i < to \<Longrightarrow> rounds i to every = 0"
proof -
  assume "\<not> i < to"
  then have "unat to - unat i = 0" by (simp add: word_less_nat_alt)
  then show ?thesis by (cases "unat every = 0") (simp_all add: rounds_def)
qed

lemma concat_map_upt_Suc:
  "concat (map f [0..<Suc m]) = f 0 @ concat (map (\<lambda>k. f (Suc k)) [0..<m])"
proof -
  have "map f [0..<Suc m] = f 0 # map (\<lambda>k. f (Suc k)) [0..<m]"
    by (induction m) simp_all
  then show ?thesis by (simp only: concat.simps)
qed

lemma retire_loop_ok:
  assumes ok: "all_succeed env" and e: "0 < every" and nw: "unat to + unat every \<le> 2 ^ 64"
  shows "rounds i to every \<le> fuel \<Longrightarrow>
         retire_loop fuel env i to every tr
         = (Some (Returns None),
            tr @ concat (map (\<lambda>k. step_calls (i + of_nat k * every) every) [0..<rounds i to every]))"
proof (induction fuel arbitrary: i tr)
  case 0
  have "\<not> i < to"
  proof
    assume "i < to"
    from rounds_step[OF this e nw] "0.prems" show False by linarith
  qed
  then show ?case by (simp add: rounds_done)
next
  case (Suc n)
  show ?case
  proof (cases "i < to")
    case False
    then show ?thesis by (simp add: rounds_done)
  next
    case True
    have r: "rounds i to every = Suc (rounds (i + every) to every)"
      by (rule rounds_step[OF True e nw])
    with Suc.prems have le: "rounds (i + every) to every \<le> n" by simp
    have shift: "\<And>k. i + every + of_nat k * every = i + of_nat (Suc k) * every"
      by (simp add: algebra_simps)
    have "retire_loop (Suc n) env i to every tr
          = retire_loop n env (i + every) to every (tr @ step_calls i every)"
      using True by (simp add: retire_step_ok[OF ok])
    also have "\<dots> = (Some (Returns None),
        (tr @ step_calls i every)
          @ concat (map (\<lambda>k. step_calls (i + every + of_nat k * every) every)
                     [0..<rounds (i + every) to every]))"
      by (rule Suc.IH[OF le])
    also have "(tr @ step_calls i every)
          @ concat (map (\<lambda>k. step_calls (i + every + of_nat k * every) every)
                     [0..<rounds (i + every) to every])
        = tr @ concat (map (\<lambda>k. step_calls (i + of_nat k * every) every)
                     [0..<Suc (rounds (i + every) to every)])"
      unfolding concat_map_upt_Suc shift by simp
    finally show ?thesis unfolding r .
  qed
qed

lemma prune_history_tx_ok:
  assumes "all_succeed env"
  shows "prune_history_tx env tr = (Returns None, tr @ [BeginRw, Agg_SetTx, Agg_Prune, Commit])"
proof -
  have body: "seq (\<lambda>tr. (Returns None, tr @ [Agg_SetTx])) (call env Agg_Prune) (tr @ [BeginRw])
      = (Returns None, tr @ BeginRw # [Agg_SetTx, Agg_Prune])"
    by (simp add: seq_def call_ok[OF assms])
  have "Update env (seq (\<lambda>tr. (Returns None, tr @ [Agg_SetTx])) (call env Agg_Prune)) tr
      = (Returns None, tr @ BeginRw # [Agg_SetTx, Agg_Prune] @ [Commit])"
    using assms body by (rule Update_ok)
  then show ?thesis by (simp add: prune_history_tx_def)
qed

lemma prune_history_loop_ok:
  assumes "all_succeed env"
  shows "prune_history_loop n env tr
         = (Returns None, tr @ concat (replicate n [BeginRw, Agg_SetTx, Agg_Prune, Commit]))"
proof (induction n arbitrary: tr)
  case 0
  then show ?case by simp
next
  case (Suc n)
  have "prune_history_loop (Suc n) env tr
        = prune_history_loop n env (tr @ [BeginRw, Agg_SetTx, Agg_Prune, Commit])"
    by (simp add: seq_ok[OF prune_history_tx_ok[OF assms]])
  then show ?case by (simp add: Suc.IH)
qed

lemma set_watermark_ok:
  assumes "all_succeed env"
  shows "set_watermark env tr = (Returns None, tr @ watermark_calls env)"
proof -
  have "respond env (tr @ [BeginRo, GetStageProgress]) (TxNums_Max (stage_progress env)) = None"
    using assms by (simp add: all_succeed_def)
  then show ?thesis
    by (simp add: set_watermark_def View_def call_ok[OF assms] deferred_def Let_def
        watermark_calls_def)
qed

lemma history_phases_ok:
  assumes "all_succeed env"
  shows "history_phases env tr = (Returns None, tr @ history_calls env)"
proof -
  show ?thesis
    unfolding history_phases_def
    by (simp add: seq_def call_ok[OF assms] set_watermark_ok[OF assms]
        prune_history_loop_ok[OF assms] prune_history_calls_def history_calls_def)
qed

lemma retire_setup_ok:
  assumes "all_succeed env"
  shows "retire_setup env tr = (Returns None, tr @ [ReopenWithDB, NewAggregator22, ReopenFiles, SetWorkers])"
  unfolding retire_setup_def by (simp add: seq_def call_ok[OF assms])

lemma doRetireCommand_ok:
  assumes ok: "all_succeed env" and e: "0 < every" and nw: "unat to + unat every \<le> 2 ^ 64"
    and fuel: "rounds from to every \<le> fuel"
  shows "doRetireCommand fuel env from to every tr
       = (Some (Returns None),
          tr @ setup_calls
            @ concat (map (\<lambda>k. step_calls (from + of_nat k * every) every) [0..<rounds from to every])
            @ HistoryV3_FromDB # (if history_v3 env then history_calls env else []) @ [Close])"
proof -
  let ?tr1 = "tr @ setup_calls"
  have s: "retire_setup env (tr @ [MustOpen]) = (Returns None, ?tr1)"
    by (simp add: retire_setup_ok[OF ok] setup_calls_def)
  have l: "retire_loop fuel env from to every ?tr1
       = (Some (Returns None),
          ?tr1 @ concat (map (\<lambda>k. step_calls (from + of_nat k * every) every) [0..<rounds from to every]))"
    by (rule retire_loop_ok[OF ok e nw fuel])
  show ?thesis
    unfolding doRetireCommand_def
    by (simp add: must_ok[OF ok] s l history_phases_ok[OF ok])
qed

lemma rounds_iff:
  assumes "0 < every"
  shows "k < rounds i to every \<longleftrightarrow> unat i + k * unat every < unat to"
proof -
  have e: "0 < unat every" using assms by (simp add: word_less_nat_alt)
  have "k < rounds i to every \<longleftrightarrow> Suc k \<le> (unat to - unat i + unat every - 1) div unat every"
    by (simp add: rounds_def Suc_le_eq)
  also have "\<dots> \<longleftrightarrow> Suc k * unat every \<le> unat to - unat i + unat every - 1"
    by (rule less_eq_div_iff_mult_less_eq[OF e])
  also have "\<dots> \<longleftrightarrow> k * unat every + unat every \<le> unat to - unat i + unat every - 1"
    by (simp add: add.commute)
  also have "\<dots> \<longleftrightarrow> unat i + k * unat every < unat to"
    using e by linarith
  finally show ?thesis .
qed

lemma unat_linear_no_wrap:
  fixes i every :: uint64
  assumes "unat i + k * unat every < 2 ^ 64"
  shows "unat (i + of_nat k * every) = unat i + k * unat every"
proof -
  have "i + of_nat k * every = of_nat (unat i + k * unat every)"
    by simp
  then have "unat (i + of_nat k * every) = (unat i + k * unat every) mod 2 ^ 64"
    by (simp only: unat_of_nat) simp
  with assms show ?thesis by simp
qed

lemma subrange_no_wrap:
  assumes e: "0 < every" and nw: "unat to + unat every \<le> 2 ^ 64" and k: "k < rounds from to every"
  shows "unat (from + of_nat k * every) = unat from + k * unat every"
    and "unat (from + of_nat k * every + every) = unat from + (k + 1) * unat every"
proof -
  have lt: "unat from + k * unat every < unat to"
    using k by (simp add: rounds_iff[OF e])
  have "unat to < 2 ^ 64" using unsigned_less[of to, where 'a=nat] by simp
  with lt have b: "unat from + k * unat every < 2 ^ 64" by simp
  show 1: "unat (from + of_nat k * every) = unat from + k * unat every"
    by (rule unat_linear_no_wrap[OF b])
  have "unat (from + of_nat k * every) + unat every < 2 ^ 64"
    using lt nw by (simp add: 1)
  then have "unat (from + of_nat k * every + every) = unat (from + of_nat k * every) + unat every"
    by (rule unat_plus_no_wrap)
  then show "unat (from + of_nat k * every + every) = unat from + (k + 1) * unat every"
    by (simp add: 1)
qed

text \<open>
  Claim C5, as amended. When \<open>every\<close> is positive, \<open>to + every\<close> does not exceed
  \<open>2^64\<close> and no call fails, the retire command returns after as many rounds as there are
  \<open>k\<close> with \<open>from + k * every < to\<close>. Its calls are those of the setup, then for
  \<open>k = 0, 1, ...\<close> in ascending order \<open>RetireBlocks\<close> on
  \<open>[from + k * every, from + (k + 1) * every)\<close> followed by one read-write transaction
  that writes the snapshot metadata and then prunes, and after the last round the history
  part. No bound of a sub-range wraps around.
\<close>

theorem doRetireCommand_subranges:
  assumes "all_succeed env" and "0 < every" and "unat to + unat every \<le> 2 ^ 64"
    and "rounds from to every \<le> fuel"
  shows "doRetireCommand fuel env from to every tr
       = (Some (Returns None),
          tr @ setup_calls
            @ concat (map (\<lambda>k. step_calls (from + of_nat k * every) every)
                        [0..<rounds from to every])
            @ HistoryV3_FromDB # (if history_v3 env then history_calls env else []) @ [Close])
     \<and> (\<forall>k. k < rounds from to every \<longleftrightarrow> unat from + k * unat every < unat to)
     \<and> (\<forall>k < rounds from to every.
           unat (from + of_nat k * every) = unat from + k * unat every
         \<and> unat (from + of_nat k * every + every) = unat from + (k + 1) * unat every)"
  using doRetireCommand_ok[OF assms] rounds_iff[OF assms(2)] subrange_no_wrap[OF assms(2,3)]
  by blast

lemma all_succeed_quiet: "all_succeed quiet"
  by (simp add: all_succeed_def quiet_def)

text \<open>Claim C5 at \<open>from = 0\<close>, \<open>to = 2000\<close>, \<open>every = 1000\<close>: two rounds.\<close>

theorem doRetireCommand_subranges_witness:
  "all_succeed quiet \<and> (0::uint64) < 1000 \<and> unat (2000::uint64) + unat (1000::uint64) \<le> 2 ^ 64
   \<and> rounds 0 2000 1000 \<le> 2
   \<and> doRetireCommand 2 quiet 0 2000 1000 []
       = (Some (Returns None),
          setup_calls @ step_calls 0 1000 @ step_calls 1000 1000
            @ HistoryV3_FromDB # history_calls quiet @ [Close])"
proof -
  have r: "rounds 0 2000 1000 = 2" by (simp add: rounds_def)
  have h: "(0::uint64) < 1000" "unat (2000::uint64) + unat (1000::uint64) \<le> 2 ^ 64"
      "rounds 0 2000 1000 \<le> 2"
    by (simp_all add: r)
  have v3: "history_v3 quiet" by (simp add: quiet_def)
  have "[0..<2] = [0, Suc 0]" by (simp add: upt_rec)
  with doRetireCommand_subranges[OF all_succeed_quiet h, of "[]"] all_succeed_quiet h v3
  show ?thesis by (simp add: r)
qed

lemma retired_ranges_append:
  "retired_ranges (a @ b) = retired_ranges a @ retired_ranges b"
  by (induction a rule: retired_ranges.induct) simp_all

lemma retired_ranges_prunes: "retired_ranges (replicate n PruneAncientBlocks @ tr) = retired_ranges tr"
  by (induction n) simp_all

lemma retired_ranges_step_calls: "retired_ranges (step_calls i every) = [(i, i + every)]"
  by (simp add: step_calls_def retired_ranges_prunes)

lemma retired_ranges_setup_calls: "retired_ranges setup_calls = []"
  by (simp add: setup_calls_def)

lemma rw_txs_from_body:
  "Commit \<notin> set body \<Longrightarrow> Rollback \<notin> set body \<Longrightarrow>
   rw_txs_from (Some acc) (body @ Commit # rest) = (acc @ body) # rw_txs_from None rest"
  by (induction body arbitrary: acc) auto

lemma rw_txs_step_calls:
  "rw_txs (step_calls i every) = [WriteSnapshots # replicate block_prune_rounds PruneAncientBlocks]"
proof -
  have "rw_txs_from (Some []) ((WriteSnapshots # replicate block_prune_rounds PruneAncientBlocks) @ Commit # [])
        = ([] @ (WriteSnapshots # replicate block_prune_rounds PruneAncientBlocks)) # rw_txs_from None []"
    by (rule rw_txs_from_body) simp_all
  then show ?thesis by (simp add: rw_txs_def step_calls_def)
qed

lemma rw_txs_prune_history:
  "rw_txs_from None (concat (replicate n [BeginRw, Agg_SetTx, Agg_Prune, Commit]) @ rest)
   = replicate n [Agg_SetTx, Agg_Prune] @ rw_txs_from None rest"
  by (induction n) simp_all

lemma rw_txs_prune_history_calls:
  "rw_txs prune_history_calls = replicate history_prune_rounds [Agg_SetTx, Agg_Prune]"
  using rw_txs_prune_history[of history_prune_rounds "[]"]
  by (simp add: rw_txs_def prune_history_calls_def)

text \<open>
  Claim C2, as amended. When no call fails, a round of the retire loop opens exactly one
  read-write transaction, which holds the metadata write and all 10000 calls of
  \<open>PruneAncientBlocks\<close>; each of the two history prune phases opens 1024 read-write
  transactions, each with one call of the aggregator's \<open>Prune\<close>.
\<close>

theorem retire_prune_transactions:
  assumes "all_succeed env"
  shows "retire_step env i every tr = (Returns None, tr @ step_calls i every)
     \<and> rw_txs (step_calls i every)
         = [WriteSnapshots # replicate block_prune_rounds PruneAncientBlocks]
     \<and> block_prune_rounds = 10000
     \<and> prune_history_loop history_prune_rounds env tr = (Returns None, tr @ prune_history_calls)
     \<and> rw_txs prune_history_calls = replicate history_prune_rounds [Agg_SetTx, Agg_Prune]
     \<and> history_prune_rounds = 1024"
proof (intro conjI)
  show "retire_step env i every tr = (Returns None, tr @ step_calls i every)"
    by (rule retire_step_ok[OF assms])
  show "prune_history_loop history_prune_rounds env tr = (Returns None, tr @ prune_history_calls)"
    by (simp add: prune_history_loop_ok[OF assms] prune_history_calls_def)
qed (simp_all add: rw_txs_step_calls rw_txs_prune_history_calls block_prune_rounds_def
      history_prune_rounds_def)

text \<open>Claim C2 in the environment in which every call succeeds.\<close>

theorem retire_prune_transactions_witness:
  "all_succeed quiet
   \<and> retire_step quiet 0 1000 [] = (Returns None, step_calls 0 1000)
   \<and> length (rw_txs (step_calls 0 1000)) = 1"
  using retire_prune_transactions[OF all_succeed_quiet, of 0 1000 "[]"] all_succeed_quiet
  by simp

text \<open>
  Claim C2 as stated fails: the round for the blocks \<open>[0, 1000)\<close> opens a single
  read-write transaction, and that one transaction performs the whole prune of the round,
  all 10000 calls.
\<close>

theorem retire_step_one_transaction_counterexample:
  "rw_txs (snd (retire_step quiet 0 1000 []))
   = [WriteSnapshots # replicate 10000 PruneAncientBlocks]"
  using rw_txs_step_calls[of 0 1000]
  by (simp add: retire_step_ok[OF all_succeed_quiet] block_prune_rounds_def)

text \<open>
  Claim C5 as stated fails where the \<open>uint64\<close> sum wraps: with \<open>from = 2^64 - 2\<close>,
  \<open>to = 2^64 - 1\<close> and \<open>every = 2\<close> only \<open>k = 0\<close> has \<open>from + k * every < to\<close>, but the
  first round retires \<open>[2^64 - 2, 0)\<close>, the second \<open>[0, 2)\<close>, and the loop is still
  running after it.
\<close>

theorem doRetireCommand_wraps_counterexample:
  "fst (doRetireCommand 2 quiet 18446744073709551614 18446744073709551615 2 []) = None
   \<and> retired_ranges (snd (doRetireCommand 2 quiet 18446744073709551614 18446744073709551615 2 []))
       = [(18446744073709551614, 0), (0, 2)]"
proof -
  have z: "(18446744073709551616::uint64) = 0" by simp
  have "retire_loop (Suc (Suc 0)) quiet 18446744073709551614 18446744073709551615 2 tr
        = (None, tr @ step_calls 18446744073709551614 2 @ step_calls 0 2)" for tr
    by (simp add: retire_step_ok[OF all_succeed_quiet] z)
  then have "doRetireCommand 2 quiet 18446744073709551614 18446744073709551615 2 []
        = (None, setup_calls @ step_calls 18446744073709551614 2 @ step_calls 0 2)"
    by (simp add: doRetireCommand_def must_ok[OF all_succeed_quiet]
        retire_setup_ok[OF all_succeed_quiet] numeral_2_eq_2 setup_calls_def)
  then show ?thesis
    by (simp add: retired_ranges_append retired_ranges_step_calls retired_ranges_setup_calls z)
qed

subsection \<open>Runs in which calls may fail\<close>

lemma emitsI: "(\<And>tr. \<exists>s. snd (f tr) = tr @ s \<and> set s \<subseteq> S) \<Longrightarrow> emits f S"
  by (simp add: emits_def)

lemma emitsD: "emits f S \<Longrightarrow> \<exists>s. snd (f tr) = tr @ s \<and> set s \<subseteq> S"
  by (simp add: emits_def)

lemma emits_call: "c \<in> S \<Longrightarrow> emits (call env c) S"
  by (rule emitsI) (simp add: call_def)

lemma emits_append: "set cs \<subseteq> S \<Longrightarrow> emits (\<lambda>tr. (r, tr @ cs)) S"
  by (rule emitsI) simp

lemma seq_cases:
  "seq f g tr = (if fst (f tr) = Returns None then g (snd (f tr)) else f tr)"
  by (cases "f tr") (auto simp: seq_def split: outcome.splits option.splits)

lemma emits_seq:
  assumes "emits f S" "emits g S"
  shows "emits (seq f g) S"
proof (rule emitsI)
  fix tr
  obtain s where s: "snd (f tr) = tr @ s" "set s \<subseteq> S" using emitsD[OF assms(1)] by blast
  obtain s' where s': "snd (g (snd (f tr))) = snd (f tr) @ s'" "set s' \<subseteq> S"
    using emitsD[OF assms(2)] by blast
  show "\<exists>s. snd (seq f g tr) = tr @ s \<and> set s \<subseteq> S"
  proof (cases "fst (f tr) = Returns None")
    case True
    then have "snd (seq f g tr) = snd (g (snd (f tr)))" by (simp add: seq_cases)
    also have "\<dots> = snd (f tr) @ s'" by (rule s')
    also have "\<dots> = tr @ (s @ s')" by (simp add: s)
    finally have "snd (seq f g tr) = tr @ (s @ s')" .
    moreover have "set (s @ s') \<subseteq> S" using s s' by simp
    ultimately show ?thesis by blast
  next
    case False
    then show ?thesis using s by (auto simp: seq_cases)
  qed
qed

lemma Update_cases:
  "Update env f tr =
     (if respond env tr BeginRw \<noteq> None then (Returns (respond env tr BeginRw), tr @ [BeginRw])
      else if fst (f (tr @ [BeginRw])) \<noteq> Returns None
        then (fst (f (tr @ [BeginRw])), snd (f (tr @ [BeginRw])) @ [Rollback])
      else if respond env (snd (f (tr @ [BeginRw]))) Commit \<noteq> None
        then (Returns (respond env (snd (f (tr @ [BeginRw]))) Commit),
              snd (f (tr @ [BeginRw])) @ [Commit, Rollback])
      else (Returns None, snd (f (tr @ [BeginRw])) @ [Commit]))"
  by (cases "f (tr @ [BeginRw])")
     (auto simp: Update_def call_def split: outcome.splits option.splits)

lemma emits_Update:
  assumes "emits f S" "{BeginRw, Commit, Rollback} \<subseteq> S"
  shows "emits (Update env f) S"
proof (rule emitsI)
  fix tr
  obtain s where s: "snd (f (tr @ [BeginRw])) = (tr @ [BeginRw]) @ s" "set s \<subseteq> S"
    using emitsD[OF assms(1)] by blast
  have "snd (Update env f tr) \<in> {tr @ [BeginRw], tr @ (BeginRw # s @ [Rollback]),
          tr @ (BeginRw # s @ [Commit, Rollback]), tr @ (BeginRw # s @ [Commit])}"
    by (simp add: Update_cases s)
  then show "\<exists>s. snd (Update env f tr) = tr @ s \<and> set s \<subseteq> S"
    using assms(2) s(2) by auto
qed

lemma emits_prune_history_tx: "emits (prune_history_tx env) prune_tx_calls"
  unfolding prune_history_tx_def
  by (intro emits_Update emits_seq emits_call emits_append) (simp_all add: prune_tx_calls_def)

lemma emits_prune_history_loop: "emits (prune_history_loop n env) prune_tx_calls"
proof (induction n)
  case 0
  have "prune_history_loop 0 env = (\<lambda>tr. (Returns None, tr @ []))" by (rule ext) simp
  then show ?case using emits_append[of "[]" prune_tx_calls "Returns None"] by simp
next
  case (Suc n)
  have "prune_history_loop (Suc n) env = seq (prune_history_tx env) (prune_history_loop n env)"
    by (rule ext) simp
  then show ?case using emits_seq[OF emits_prune_history_tx Suc] by simp
qed

lemma emits_mono: "emits f S \<Longrightarrow> S \<subseteq> S' \<Longrightarrow> emits f S'"
  unfolding emits_def by (meson subset_trans)

lemma seq_assoc: "seq (seq f g) h = seq f (seq g h)"
  by (rule ext) (simp add: seq_cases)

lemma set_watermark_cases:
  "set_watermark env tr =
     (if respond env tr BeginRo \<noteq> None then (Returns (respond env tr BeginRo), tr @ [BeginRo])
      else if respond env (tr @ [BeginRo, GetStageProgress]) (TxNums_Max (stage_progress env)) \<noteq> None
        then (Returns (respond env (tr @ [BeginRo, GetStageProgress]) (TxNums_Max (stage_progress env))),
              tr @ [BeginRo, GetStageProgress, TxNums_Max (stage_progress env), Rollback])
      else (Returns None, tr @ watermark_calls env))"
  by (auto simp: set_watermark_def View_def call_def deferred_def Let_def watermark_calls_def
      split: option.splits)

lemma set_watermark_facts:
  "\<exists>s. snd (set_watermark env tr) = tr @ s \<and> BuildFiles \<notin> set s
       \<and> (fst (set_watermark env tr) = Returns None
            \<longrightarrow> SetTxNum (txnums_max env (stage_progress env)) \<in> set s)"
  by (simp add: set_watermark_cases watermark_calls_def)

lemma history_phases_split:
  "history_phases env =
     seq (before_build env)
         (seq (call env BuildFiles)
              (seq (call env MergeLoop) (prune_history_loop history_prune_rounds env)))"
  by (simp add: history_phases_def before_build_def seq_assoc)

lemma before_build_facts:
  "\<exists>s. snd (before_build env tr) = tr @ s \<and> BuildFiles \<notin> set s
       \<and> (fst (before_build env tr) = Returns None
            \<longrightarrow> SetTxNum (txnums_max env (stage_progress env)) \<in> set s)"
proof -
  let ?A = "seq (prune_history_loop history_prune_rounds env) (call env BuildMissedIndices)"
  have "emits ?A (insert BuildMissedIndices prune_tx_calls)"
    by (intro emits_seq emits_call emits_mono[OF emits_prune_history_loop]) auto
  then obtain s0 where s0: "snd (?A tr) = tr @ s0" "set s0 \<subseteq> insert BuildMissedIndices prune_tx_calls"
    using emitsD by blast
  then have nb: "BuildFiles \<notin> set s0" by (auto simp: prune_tx_calls_def)
  show ?thesis
  proof (cases "fst (?A tr) = Returns None")
    case False
    then show ?thesis using s0(1) nb by (auto simp: before_build_def seq_cases)
  next
    case True
    obtain s1 where s1: "snd (set_watermark env (tr @ s0)) = (tr @ s0) @ s1" "BuildFiles \<notin> set s1"
      "fst (set_watermark env (tr @ s0)) = Returns None
        \<longrightarrow> SetTxNum (txnums_max env (stage_progress env)) \<in> set s1"
      using set_watermark_facts[of env "tr @ s0"] by blast
    have eq: "before_build env tr = set_watermark env (tr @ s0)"
      using True s0(1) by (simp add: before_build_def seq_cases)
    have "snd (before_build env tr) = tr @ (s0 @ s1)" by (simp add: eq s1(1))
    moreover have "BuildFiles \<notin> set (s0 @ s1)" using nb s1(2) by simp
    moreover have "fst (before_build env tr) = Returns None
        \<longrightarrow> SetTxNum (txnums_max env (stage_progress env)) \<in> set (s0 @ s1)"
      using s1(3) by (simp add: eq)
    ultimately show ?thesis by blast
  qed
qed

lemma emits_UNIV_prune_history_loop: "emits (prune_history_loop n env) UNIV"
  by (rule emits_mono[OF emits_prune_history_loop]) simp

lemma build_onwards:
  "\<exists>s. snd (seq (call env BuildFiles)
              (seq (call env MergeLoop) (prune_history_loop history_prune_rounds env)) tr)
       = tr @ BuildFiles # s"
proof -
  let ?post = "seq (call env MergeLoop) (prune_history_loop history_prune_rounds env)"
  have "emits ?post UNIV"
    by (intro emits_seq emits_call emits_UNIV_prune_history_loop) simp
  then obtain s where "snd (?post (tr @ [BuildFiles])) = (tr @ [BuildFiles]) @ s"
    using emitsD by blast
  then show ?thesis by (simp add: seq_cases call_def)
qed

lemma takeWhile_until: "x \<notin> set s \<Longrightarrow> takeWhile (\<lambda>c. c \<noteq> x) (s @ x # r) = s"
  by (induction s) auto

lemma watermark_before_build:
  "\<exists>s. snd (history_phases env tr) = tr @ s
       \<and> (BuildFiles \<in> set s \<longrightarrow>
            SetTxNum (txnums_max env (stage_progress env))
              \<in> set (takeWhile (\<lambda>c. c \<noteq> BuildFiles) s))"
proof -
  obtain s where s: "snd (before_build env tr) = tr @ s" "BuildFiles \<notin> set s"
      "fst (before_build env tr) = Returns None
        \<longrightarrow> SetTxNum (txnums_max env (stage_progress env)) \<in> set s"
    using before_build_facts[of env tr] by blast
  show ?thesis
  proof (cases "fst (before_build env tr) = Returns None")
    case False
    then have "snd (history_phases env tr) = tr @ s"
      by (simp add: history_phases_split seq_cases s(1))
    with s(2) show ?thesis by blast
  next
    case True
    obtain s2 where "snd (seq (call env BuildFiles)
              (seq (call env MergeLoop) (prune_history_loop history_prune_rounds env)) (tr @ s))
       = (tr @ s) @ BuildFiles # s2"
      using build_onwards[of env "tr @ s"] by blast
    then have eq: "snd (history_phases env tr) = tr @ (s @ BuildFiles # s2)"
      using True by (simp add: history_phases_split seq_cases[of "before_build env"] s(1))
    have "takeWhile (\<lambda>c. c \<noteq> BuildFiles) (s @ BuildFiles # s2) = s"
      using s(2) by (rule takeWhile_until)
    with eq s(3) True show ?thesis by auto
  qed
qed

lemma emits_must: "c \<in> S \<Longrightarrow> emits (must env c) S"
  by (rule emitsI) (simp add: must_def split: option.splits)

lemma emits_prune_loop: "PruneAncientBlocks \<in> S \<Longrightarrow> emits (prune_loop n env) S"
proof (induction n)
  case 0
  have "prune_loop 0 env = (\<lambda>tr. (Returns None, tr @ []))" by (rule ext) simp
  then show ?case using emits_append[of "[]" S "Returns None"] by simp
next
  case (Suc n)
  have "prune_loop (Suc n) env = seq (call env PruneAncientBlocks) (prune_loop n env)"
    by (rule ext) simp
  then show ?case using emits_seq[OF emits_call[OF Suc.prems] Suc.IH[OF Suc.prems]] by simp
qed

lemma emits_retire_step: "emits (retire_step env i every) block_part_calls"
  unfolding retire_step_def
  by (intro emits_seq emits_must emits_Update emits_call emits_prune_loop)
     (auto simp: block_part_calls_def)

lemma emits_retire_setup: "emits (retire_setup env) block_part_calls"
  unfolding retire_setup_def
  by (intro emits_seq emits_call emits_append) (auto simp: block_part_calls_def)

lemma retire_loop_emits:
  "\<exists>s. snd (retire_loop fuel env i to every tr) = tr @ s \<and> set s \<subseteq> block_part_calls"
proof (induction fuel arbitrary: i tr)
  case 0
  then show ?case by simp
next
  case (Suc n)
  obtain s where s: "snd (retire_step env i every tr) = tr @ s" "set s \<subseteq> block_part_calls"
    using emitsD[OF emits_retire_step] by blast
  obtain s' where s': "snd (retire_loop n env (i + every) to every (tr @ s)) = (tr @ s) @ s'"
      "set s' \<subseteq> block_part_calls"
    using Suc.IH by blast
  show ?case
  proof (cases "i < to \<and> fst (retire_step env i every tr) = Returns None")
    case True
    then have "retire_loop (Suc n) env i to every tr
        = retire_loop n env (i + every) to every (tr @ s)"
      using s(1) by (cases "retire_step env i every tr") simp
    then have "snd (retire_loop (Suc n) env i to every tr) = tr @ (s @ s')"
      by (simp add: s'(1))
    moreover have "set (s @ s') \<subseteq> block_part_calls" using s(2) s'(2) by simp
    ultimately show ?thesis by blast
  next
    case False
    then have "snd (retire_loop (Suc n) env i to every tr) = tr \<or>
               snd (retire_loop (Suc n) env i to every tr) = tr @ s"
      using s(1)
      by (cases "retire_step env i every tr")
         (auto split: outcome.splits option.splits)
    then show ?thesis using s(2) by auto
  qed
qed

lemma BuildFiles_not_block_part: "BuildFiles \<notin> insert Close block_part_calls"
  by (auto simp: block_part_calls_def)

lemma doRetireCommand_shape:
  "(\<exists>s. snd (doRetireCommand fuel env from to every tr) = tr @ s
        \<and> set s \<subseteq> insert Close block_part_calls)
   \<or> (\<exists>s. set s \<subseteq> block_part_calls
        \<and> snd (doRetireCommand fuel env from to every tr)
            = snd (history_phases env (tr @ s)) @ [Close])"
proof -
  obtain r0 where m: "must env MustOpen tr = (r0, tr @ [MustOpen])"
    by (cases "respond env tr MustOpen") (auto simp: must_def)
  obtain s1 where s1: "snd (retire_setup env (tr @ [MustOpen])) = (tr @ [MustOpen]) @ s1"
      "set s1 \<subseteq> block_part_calls"
    using emitsD[OF emits_retire_setup] by blast
  obtain r1 where st: "retire_setup env (tr @ [MustOpen]) = (r1, tr @ MustOpen # s1)"
    using s1(1) by (cases "retire_setup env (tr @ [MustOpen])") simp
  obtain s2 where s2: "snd (retire_loop fuel env from to every (tr @ MustOpen # s1))
       = (tr @ MustOpen # s1) @ s2" "set s2 \<subseteq> block_part_calls"
    using retire_loop_emits by blast
  obtain r2 where lp: "retire_loop fuel env from to every (tr @ MustOpen # s1)
       = (r2, tr @ MustOpen # s1 @ s2)"
    using s2(1) by (cases "retire_loop fuel env from to every (tr @ MustOpen # s1)") simp
  have mo: "MustOpen \<in> block_part_calls" "HistoryV3_FromDB \<in> block_part_calls"
    by (simp_all add: block_part_calls_def)
  show ?thesis
  proof (cases "r0 = Returns None \<and> r1 = Returns None \<and> r2 = Some (Returns None) \<and> history_v3 env")
    case True
    then have "snd (doRetireCommand fuel env from to every tr)
        = snd (history_phases env (tr @ (MustOpen # s1 @ s2 @ [HistoryV3_FromDB]))) @ [Close]"
      by (simp add: doRetireCommand_def m st lp split: prod.splits)
    moreover have "set (MustOpen # s1 @ s2 @ [HistoryV3_FromDB]) \<subseteq> block_part_calls"
      using s1(2) s2(2) mo by simp
    ultimately show ?thesis by blast
  next
    case False
    then have "snd (doRetireCommand fuel env from to every tr)
        \<in> {tr @ [MustOpen], tr @ (MustOpen # s1 @ [Close]), tr @ (MustOpen # s1 @ s2),
            tr @ (MustOpen # s1 @ s2 @ [Close]), tr @ (MustOpen # s1 @ s2 @ [HistoryV3_FromDB, Close])}"
      by (auto simp: doRetireCommand_def m st lp split: outcome.splits option.splits)
    then show ?thesis using s1(2) s2(2) mo by auto
  qed
qed

lemma takeWhile_skip:
  "x \<notin> set pre \<Longrightarrow> takeWhile (\<lambda>c. c \<noteq> x) (pre @ r) = pre @ takeWhile (\<lambda>c. c \<noteq> x) r"
  by (induction pre) auto

lemma takeWhile_cut:
  "x \<in> set sh \<Longrightarrow> takeWhile (\<lambda>c. c \<noteq> x) (sh @ r) = takeWhile (\<lambda>c. c \<noteq> x) sh"
  by (induction sh) auto

lemma doRetireCommand_watermark_before_build:
  "\<exists>s. snd (doRetireCommand fuel env from to every tr) = tr @ s
       \<and> (BuildFiles \<in> set s \<longrightarrow>
            SetTxNum (txnums_max env (stage_progress env))
              \<in> set (takeWhile (\<lambda>c. c \<noteq> BuildFiles) s))"
  using doRetireCommand_shape[of fuel env "from" to every tr]
proof (elim disjE exE conjE)
  fix s
  assume "snd (doRetireCommand fuel env from to every tr) = tr @ s"
    "set s \<subseteq> insert Close block_part_calls"
  then show ?thesis using BuildFiles_not_block_part by blast
next
  fix pre
  assume pre: "set pre \<subseteq> block_part_calls"
    and eq: "snd (doRetireCommand fuel env from to every tr)
            = snd (history_phases env (tr @ pre)) @ [Close]"
  obtain sh where sh: "snd (history_phases env (tr @ pre)) = (tr @ pre) @ sh"
      "BuildFiles \<in> set sh \<longrightarrow>
            SetTxNum (txnums_max env (stage_progress env))
              \<in> set (takeWhile (\<lambda>c. c \<noteq> BuildFiles) sh)"
    using watermark_before_build[of env "tr @ pre"] by blast
  have nb: "BuildFiles \<notin> set pre" using pre BuildFiles_not_block_part by blast
  have e: "snd (doRetireCommand fuel env from to every tr) = tr @ (pre @ sh @ [Close])"
    by (simp add: eq sh(1))
  have "SetTxNum (txnums_max env (stage_progress env))
              \<in> set (takeWhile (\<lambda>c. c \<noteq> BuildFiles) (pre @ sh @ [Close]))"
    if "BuildFiles \<in> set (pre @ sh @ [Close])"
  proof -
    from that nb have b: "BuildFiles \<in> set sh" by simp
    have "takeWhile (\<lambda>c. c \<noteq> BuildFiles) (pre @ sh @ [Close])
          = pre @ takeWhile (\<lambda>c. c \<noteq> BuildFiles) sh"
      by (simp only: takeWhile_skip[OF nb] takeWhile_cut[OF b])
    with sh(2) b show ?thesis by simp
  qed
  with e show ?thesis by blast
qed

lemma doRetireCommand_after_loop:
  assumes ok: "all_succeed env"
    and lp: "retire_loop fuel env from to every (tr @ setup_calls) = (Some (Returns None), tr2)"
  shows "doRetireCommand fuel env from to every tr
       = (Some (Returns None),
          tr2 @ HistoryV3_FromDB # (if history_v3 env then history_calls env else []) @ [Close])"
proof -
  have s: "retire_setup env (tr @ [MustOpen]) = (Returns None, tr @ setup_calls)"
    by (simp add: retire_setup_ok[OF ok] setup_calls_def)
  show ?thesis
    unfolding doRetireCommand_def
    by (simp add: must_ok[OF ok] s lp history_phases_ok[OF ok])
qed

lemma marksI:
  "(\<And>tr. \<exists>s. snd (f tr) = tr @ s
        \<and> (if fst (f tr) = Returns None then milestones env s = m
            else (\<exists>n. milestones env s = take n m))) \<Longrightarrow> marks env f m"
  by (simp add: marks_def)

lemma marksD:
  "marks env f m \<Longrightarrow> \<exists>s. snd (f tr) = tr @ s
        \<and> (if fst (f tr) = Returns None then milestones env s = m
            else (\<exists>n. milestones env s = take n m))"
  by (simp add: marks_def)

lemma milestones_append: "milestones env (a @ b) = milestones env a @ milestones env b"
  by (simp add: milestones_def)

lemma milestones_none:
  "set s \<inter> set (history_milestones env) = {} \<Longrightarrow> milestones env s = []"
  by (auto simp: milestones_def filter_empty_conv)

lemma marks_seq:
  assumes f: "marks env f m1" and g: "marks env g m2"
  shows "marks env (seq f g) (m1 @ m2)"
proof (rule marksI)
  fix tr
  obtain s where s: "snd (f tr) = tr @ s"
      "if fst (f tr) = Returns None then milestones env s = m1
       else (\<exists>n. milestones env s = take n m1)"
    using marksD[OF f] by blast
  show "\<exists>s. snd (seq f g tr) = tr @ s
        \<and> (if fst (seq f g tr) = Returns None then milestones env s = m1 @ m2
            else (\<exists>n. milestones env s = take n (m1 @ m2)))"
  proof (cases "fst (f tr) = Returns None")
    case False
    with s(2) obtain n where n: "milestones env s = take n m1" by auto
    have "take n m1 = take (min n (length m1)) (m1 @ m2)" by (simp add: min_def)
    with n have "\<exists>k. milestones env s = take k (m1 @ m2)" by metis
    with False s(1) show ?thesis by (auto simp: seq_cases)
  next
    case True
    with s(2) have m1: "milestones env s = m1" by simp
    obtain s' where s': "snd (g (tr @ s)) = (tr @ s) @ s'"
        "if fst (g (tr @ s)) = Returns None then milestones env s' = m2
         else (\<exists>n. milestones env s' = take n m2)"
      using marksD[OF g] by blast
    have eq: "seq f g tr = g (tr @ s)" using True s(1) by (simp add: seq_cases)
    have snd: "snd (seq f g tr) = tr @ (s @ s')" by (simp add: eq s'(1))
    show ?thesis
    proof (cases "fst (g (tr @ s)) = Returns None")
      case True
      with s'(2) have "milestones env (s @ s') = m1 @ m2" by (simp add: milestones_append m1)
      with snd True show ?thesis by (auto simp: eq)
    next
      case False
      with s'(2) obtain n where "milestones env s' = take n m2" by auto
      then have "milestones env (s @ s') = take (length m1 + n) (m1 @ m2)"
        by (simp add: milestones_append m1)
      then have "\<exists>k. milestones env (s @ s') = take k (m1 @ m2)" by (rule exI)
      with snd False show ?thesis unfolding eq by (intro exI[of _ "s @ s'"]) simp

    qed
  qed
qed

lemma marks_emits:
  assumes "emits f S" "S \<inter> set (history_milestones env) = {}"
  shows "marks env f []"
proof (rule marksI)
  fix tr
  obtain s where s: "snd (f tr) = tr @ s" "set s \<subseteq> S" using emitsD[OF assms(1)] by blast
  then have "milestones env s = []" using assms(2) by (intro milestones_none) auto
  with s(1) show "\<exists>s. snd (f tr) = tr @ s
        \<and> (if fst (f tr) = Returns None then milestones env s = []
            else (\<exists>n. milestones env s = take n []))"
    by auto
qed

lemma marks_call:
  "c \<in> set (history_milestones env) \<Longrightarrow> marks env (call env c) [c]"
proof (rule marksI)
  fix tr assume c: "c \<in> set (history_milestones env)"
  have m: "milestones env [c] = [c]" using c by (simp add: milestones_def)
  have "take 1 [c] = [c]" by simp
  then have "\<exists>n. [c] = take n [c]" by metis
  then show "\<exists>s. snd (call env c tr) = tr @ s
        \<and> (if fst (call env c tr) = Returns None then milestones env s = [c]
            else (\<exists>n. milestones env s = take n [c]))"
    by (auto simp: call_def m)
qed

lemma marks_set_watermark:
  "marks env (set_watermark env) [SetTxNum (txnums_max env (stage_progress env))]"
proof (rule marksI)
  fix tr
  let ?w = "SetTxNum (txnums_max env (stage_progress env))"
  have t0: "take 0 [?w] = []" by simp
  have a: "milestones env [BeginRo] = []"
    "milestones env [BeginRo, GetStageProgress, TxNums_Max (stage_progress env), Rollback] = []"
    "milestones env (watermark_calls env) = [?w]"
    by (simp_all add: milestones_def history_milestones_def watermark_calls_def)
  have e: "\<exists>n. [] = take n [?w]" using t0 by metis
  show "\<exists>s. snd (set_watermark env tr) = tr @ s
        \<and> (if fst (set_watermark env tr) = Returns None then milestones env s = [?w]
            else (\<exists>n. milestones env s = take n [?w]))"
    using e by (auto simp: set_watermark_cases a)
qed

lemma marks_history_phases: "marks env (history_phases env) (history_milestones env)"
proof -
  have p: "marks env (prune_history_loop history_prune_rounds env) []"
    by (rule marks_emits[OF emits_prune_history_loop])
       (simp add: prune_tx_calls_def history_milestones_def)
  have "marks env (history_phases env)
      ([] @ [BuildMissedIndices] @ [SetTxNum (txnums_max env (stage_progress env))]
         @ [BuildFiles] @ [MergeLoop] @ [])"
    unfolding history_phases_def
    by (intro marks_seq p marks_set_watermark marks_call) (simp_all add: history_milestones_def)
  then show ?thesis by (simp add: history_milestones_def)
qed

lemma doRetireCommand_milestones:
  "\<exists>s n. snd (doRetireCommand fuel env from to every tr) = tr @ s
       \<and> milestones env s = take n (history_milestones env)"
  using doRetireCommand_shape[of fuel env "from" to every tr]
proof (elim disjE exE conjE)
  fix s
  assume s: "snd (doRetireCommand fuel env from to every tr) = tr @ s"
    "set s \<subseteq> insert Close block_part_calls"
  have "set s \<inter> set (history_milestones env) = {}"
    using s(2) by (auto simp: block_part_calls_def history_milestones_def)
  then have "milestones env s = take 0 (history_milestones env)"
    by (simp add: milestones_none)
  with s(1) show ?thesis by blast
next
  fix pre
  assume pre: "set pre \<subseteq> block_part_calls"
    and eq: "snd (doRetireCommand fuel env from to every tr)
            = snd (history_phases env (tr @ pre)) @ [Close]"
  obtain sh where sh: "snd (history_phases env (tr @ pre)) = (tr @ pre) @ sh"
      "if fst (history_phases env (tr @ pre)) = Returns None
       then milestones env sh = history_milestones env
       else (\<exists>n. milestones env sh = take n (history_milestones env))"
    using marksD[OF marks_history_phases] by blast
  have "take (length (history_milestones env)) (history_milestones env) = history_milestones env"
    by simp
  with sh(2) obtain n where n: "milestones env sh = take n (history_milestones env)"
    by (cases "fst (history_phases env (tr @ pre)) = Returns None") metis+
  have "set pre \<inter> set (history_milestones env) = {}"
    using pre by (auto simp: block_part_calls_def history_milestones_def)
  then have p0: "milestones env pre = []" by (rule milestones_none)
  have c0: "milestones env [Close] = []" by (simp add: milestones_def history_milestones_def)
  have "snd (doRetireCommand fuel env from to every tr) = tr @ (pre @ sh @ [Close])"
    by (simp add: eq sh(1))
  moreover have "milestones env (pre @ sh @ [Close]) = take n (history_milestones env)"
    by (simp add: milestones_append p0 c0 n)
  ultimately show ?thesis by blast
qed

lemma milestones_prune_history_calls: "milestones env prune_history_calls = []"
  by (rule milestones_none) (auto simp: prune_history_calls_def history_milestones_def)

text \<open>
  Claim C6. When no call fails, the history part of the retire command makes its calls in
  the order: 1024 prune transactions, \<open>BuildMissedIndices\<close>, the read-only transaction
  that reads the execution stage's progress, takes \<open>TxNums.Max\<close> of it and hands the
  result to \<open>SetTxNum\<close>, then \<open>BuildFiles\<close>, \<open>MergeLoop\<close> and 1024 prune
  transactions again. Whatever the calls answer, and however far the loop over the block
  ranges gets, a retire command that reaches \<open>BuildFiles\<close> has called \<open>SetTxNum\<close> with
  that maximum before.

  For the command as a whole: when no call fails and the loop over the block ranges has
  returned, the command goes on with the test for HistoryV3, then, if HistoryV3 is on,
  with exactly these six phases in this order, and closes the database; if HistoryV3 is
  off it closes the database right after the test. With enough fuel for the loop the
  whole trace of the command is the setup, the rounds of the loop, the test, the six
  phases and the close. Whatever the calls answer, the calls \<open>BuildMissedIndices\<close>,
  \<open>SetTxNum\<close> of the maximum, \<open>BuildFiles\<close> and \<open>MergeLoop\<close> that the command makes
  are an initial part of that sequence: each at most once, none before its predecessor.
\<close>

theorem retire_history_order:
  "(all_succeed env \<longrightarrow>
      history_phases env tr
      = (Returns None,
         tr @ prune_history_calls @ [BuildMissedIndices] @ watermark_calls env
            @ [BuildFiles, MergeLoop] @ prune_history_calls))
   \<and> (\<exists>s. snd (doRetireCommand fuel env from to every tr) = tr @ s
         \<and> (BuildFiles \<in> set s \<longrightarrow>
              SetTxNum (txnums_max env (stage_progress env))
                \<in> set (takeWhile (\<lambda>c. c \<noteq> BuildFiles) s)))
   \<and> (all_succeed env
        \<and> retire_loop fuel env from to every (tr @ setup_calls) = (Some (Returns None), tr2) \<longrightarrow>
        doRetireCommand fuel env from to every tr
        = (Some (Returns None),
           tr2 @ HistoryV3_FromDB
             # (if history_v3 env
                then prune_history_calls @ [BuildMissedIndices]
                       @ [BeginRo, GetStageProgress, TxNums_Max (stage_progress env),
                          SetTxNum (txnums_max env (stage_progress env)), Rollback]
                       @ [BuildFiles, MergeLoop] @ prune_history_calls
                else [])
             @ [Close]))
   \<and> (all_succeed env \<and> 0 < every \<and> unat to + unat every \<le> 2 ^ 64
        \<and> rounds from to every \<le> fuel \<longrightarrow>
        doRetireCommand fuel env from to every tr
        = (Some (Returns None),
           tr @ setup_calls
             @ concat (map (\<lambda>k. step_calls (from + of_nat k * every) every)
                         [0..<rounds from to every])
             @ HistoryV3_FromDB
             # (if history_v3 env
                then prune_history_calls @ [BuildMissedIndices]
                       @ [BeginRo, GetStageProgress, TxNums_Max (stage_progress env),
                          SetTxNum (txnums_max env (stage_progress env)), Rollback]
                       @ [BuildFiles, MergeLoop] @ prune_history_calls
                else [])
             @ [Close]))
   \<and> (\<exists>s n. snd (doRetireCommand fuel env from to every tr) = tr @ s
         \<and> milestones env s = take n (history_milestones env))"
proof (intro conjI impI)
  assume "all_succeed env"
  then show "history_phases env tr
      = (Returns None,
         tr @ prune_history_calls @ [BuildMissedIndices] @ watermark_calls env
            @ [BuildFiles, MergeLoop] @ prune_history_calls)"
    by (simp add: history_phases_ok history_calls_def)
next
  show "\<exists>s. snd (doRetireCommand fuel env from to every tr) = tr @ s
         \<and> (BuildFiles \<in> set s \<longrightarrow>
              SetTxNum (txnums_max env (stage_progress env))
                \<in> set (takeWhile (\<lambda>c. c \<noteq> BuildFiles) s))"
    by (rule doRetireCommand_watermark_before_build)
next
  assume "all_succeed env
        \<and> retire_loop fuel env from to every (tr @ setup_calls) = (Some (Returns None), tr2)"
  then have "doRetireCommand fuel env from to every tr
       = (Some (Returns None),
          tr2 @ HistoryV3_FromDB # (if history_v3 env then history_calls env else []) @ [Close])"
    by (simp add: doRetireCommand_after_loop)
  then show "doRetireCommand fuel env from to every tr
        = (Some (Returns None),
           tr2 @ HistoryV3_FromDB
             # (if history_v3 env
                then prune_history_calls @ [BuildMissedIndices]
                       @ [BeginRo, GetStageProgress, TxNums_Max (stage_progress env),
                          SetTxNum (txnums_max env (stage_progress env)), Rollback]
                       @ [BuildFiles, MergeLoop] @ prune_history_calls
                else [])
             @ [Close])"
    by (simp add: history_calls_def watermark_calls_def)
next
  assume "all_succeed env \<and> 0 < every \<and> unat to + unat every \<le> 2 ^ 64
        \<and> rounds from to every \<le> fuel"
  then have "doRetireCommand fuel env from to every tr
       = (Some (Returns None),
          tr @ setup_calls
            @ concat (map (\<lambda>k. step_calls (from + of_nat k * every) every) [0..<rounds from to every])
            @ HistoryV3_FromDB # (if history_v3 env then history_calls env else []) @ [Close])"
    by (simp add: doRetireCommand_ok)
  then show "doRetireCommand fuel env from to every tr
        = (Some (Returns None),
           tr @ setup_calls
             @ concat (map (\<lambda>k. step_calls (from + of_nat k * every) every)
                         [0..<rounds from to every])
             @ HistoryV3_FromDB
             # (if history_v3 env
                then prune_history_calls @ [BuildMissedIndices]
                       @ [BeginRo, GetStageProgress, TxNums_Max (stage_progress env),
                          SetTxNum (txnums_max env (stage_progress env)), Rollback]
                       @ [BuildFiles, MergeLoop] @ prune_history_calls
                else [])
             @ [Close])"
    by (simp add: history_calls_def watermark_calls_def)
next
  show "\<exists>s n. snd (doRetireCommand fuel env from to every tr) = tr @ s
         \<and> milestones env s = take n (history_milestones env)"
    by (rule doRetireCommand_milestones)
qed

text \<open>
  Claim C6 in the environment in which every call succeeds: the history part alone, a
  retire command whose range is empty, a retire command over two ranges of 1000 blocks,
  and a retire command with HistoryV3 off.
\<close>

theorem retire_history_order_witness:
  "all_succeed quiet
   \<and> history_phases quiet []
       = (Returns None,
          prune_history_calls @ [BuildMissedIndices]
            @ [BeginRo, GetStageProgress, TxNums_Max 7, SetTxNum 700, Rollback]
            @ [BuildFiles, MergeLoop] @ prune_history_calls)
   \<and> BuildFiles \<in> set (snd (doRetireCommand 0 quiet 0 0 1000 []))
   \<and> SetTxNum 700 \<in> set (takeWhile (\<lambda>c. c \<noteq> BuildFiles) (snd (doRetireCommand 0 quiet 0 0 1000 [])))
   \<and> doRetireCommand 2 quiet 0 2000 1000 []
       = (Some (Returns None),
          setup_calls @ step_calls 0 1000 @ step_calls 1000 1000
            @ HistoryV3_FromDB # prune_history_calls @ [BuildMissedIndices]
            @ [BeginRo, GetStageProgress, TxNums_Max 7, SetTxNum 700, Rollback]
            @ [BuildFiles, MergeLoop] @ prune_history_calls @ [Close])
   \<and> doRetireCommand 0 (quiet\<lparr>history_v3 := False\<rparr>) 0 0 1000 []
       = (Some (Returns None), setup_calls @ [HistoryV3_FromDB, Close])
   \<and> milestones quiet (snd (doRetireCommand 2 quiet 0 2000 1000 []))
       = [BuildMissedIndices, SetTxNum 700, BuildFiles, MergeLoop]"
proof -
  let ?off = "quiet\<lparr>history_v3 := False\<rparr>"
  have q: "stage_progress quiet = 7" "txnums_max quiet 7 = 700" "history_v3 quiet"
    by (simp_all add: quiet_def)
  have off: "all_succeed ?off" "\<not> history_v3 ?off"
    by (simp_all add: all_succeed_def quiet_def)
  have r0: "rounds 0 0 1000 = 0" by (simp add: rounds_def)
  have r2: "rounds 0 2000 1000 = 2" by (simp add: rounds_def)
  have u: "[0..<2] = [0, Suc 0]" by (simp add: upt_rec)
  note A = retire_history_order[of quiet "[]" 0 0 0 1000]
  note B = retire_history_order[of quiet "[]" 2 0 2000 1000]
  note C = retire_history_order[of ?off "[]" 0 0 0 1000]
  have hp: "history_phases quiet []
       = (Returns None,
          prune_history_calls @ [BuildMissedIndices]
            @ [BeginRo, GetStageProgress, TxNums_Max 7, SetTxNum 700, Rollback]
            @ [BuildFiles, MergeLoop] @ prune_history_calls)"
    using A all_succeed_quiet by (simp add: watermark_calls_def q)
  have d0: "doRetireCommand 0 quiet 0 0 1000 []
       = (Some (Returns None),
          setup_calls @ HistoryV3_FromDB # prune_history_calls @ [BuildMissedIndices]
            @ [BeginRo, GetStageProgress, TxNums_Max 7, SetTxNum 700, Rollback]
            @ [BuildFiles, MergeLoop] @ prune_history_calls @ [Close])"
    using A all_succeed_quiet by (simp add: r0 q)
  have b: "BuildFiles \<in> set (snd (doRetireCommand 0 quiet 0 0 1000 []))"
    by (simp add: d0)
  have w: "SetTxNum 700 \<in> set (takeWhile (\<lambda>c. c \<noteq> BuildFiles) (snd (doRetireCommand 0 quiet 0 0 1000 [])))"
    using A b by (simp add: q)
  have d2: "doRetireCommand 2 quiet 0 2000 1000 []
       = (Some (Returns None),
          setup_calls @ step_calls 0 1000 @ step_calls 1000 1000
            @ HistoryV3_FromDB # prune_history_calls @ [BuildMissedIndices]
            @ [BeginRo, GetStageProgress, TxNums_Max 7, SetTxNum 700, Rollback]
            @ [BuildFiles, MergeLoop] @ prune_history_calls @ [Close])"
    using B all_succeed_quiet by (simp add: r2 u q)
  have doff: "doRetireCommand 0 ?off 0 0 1000 []
       = (Some (Returns None), setup_calls @ [HistoryV3_FromDB, Close])"
    using C off by (simp add: r0)
  have ms: "milestones quiet (setup_calls @ step_calls 0 1000 @ step_calls 1000 1000) = []"
    by (rule milestones_none)
       (auto simp: setup_calls_def step_calls_def history_milestones_def)
  have m: "milestones quiet (snd (doRetireCommand 2 quiet 0 2000 1000 []))
       = [BuildMissedIndices, SetTxNum 700, BuildFiles, MergeLoop]"
  proof -
    have mid: "milestones quiet
          ([BuildMissedIndices]
             @ [BeginRo, GetStageProgress, TxNums_Max 7, SetTxNum 700, Rollback]
             @ [BuildFiles, MergeLoop])
        = [BuildMissedIndices, SetTxNum 700, BuildFiles, MergeLoop]"
      "milestones quiet [HistoryV3_FromDB] = []" "milestones quiet [Close] = []"
      by (simp_all add: milestones_def history_milestones_def q)
    have "milestones quiet (snd (doRetireCommand 2 quiet 0 2000 1000 []))
        = milestones quiet (setup_calls @ step_calls 0 1000 @ step_calls 1000 1000)
          @ milestones quiet [HistoryV3_FromDB] @ milestones quiet prune_history_calls
          @ milestones quiet
              ([BuildMissedIndices]
                 @ [BeginRo, GetStageProgress, TxNums_Max 7, SetTxNum 700, Rollback]
                 @ [BuildFiles, MergeLoop])
          @ milestones quiet prune_history_calls @ milestones quiet [Close]"
      unfolding d2 snd_conv by (simp add: milestones_def history_milestones_def)
    then show ?thesis by (simp only: ms mid milestones_prune_history_calls append_Nil append_Nil2)
  qed
  from all_succeed_quiet hp b w d2 doff m show ?thesis by (intro conjI)
qed

subsection \<open>The create command, and the upper bound when \<open>to\<close> is zero\<close>

lemma succeed_onD: "succeed_on env cs \<Longrightarrow> c \<in> set cs \<Longrightarrow> respond env tr c = None"
  by (auto simp: succeed_on_def list_all_iff)

lemma create_setup_ok:
  assumes "succeed_on env create_setup_calls"
  shows "seq (must env (MustExist Snap))
        (seq (must env (MustExist SnapHistory))
        (seq (must env (MustExist Tmp))
        (seq (must env MustOpen) f))) tr = f (tr @ create_setup_calls)"
proof -
  have "respond env t c = None" if "c \<in> set create_setup_calls" for t c
    using succeed_onD[OF assms that] .
  then show ?thesis
    by (simp add: seq_def must_def create_setup_calls_def)
qed

lemma persist_snapshots_ok:
  assumes "succeed_on env persist_calls"
  shows "persist_snapshots env tr = (Returns None, tr @ persist_calls)"
proof -
  have "respond env t c = None" if "c \<in> set persist_calls" for t c
    using succeed_onD[OF assms that] .
  then show ?thesis
    by (simp add: persist_snapshots_def seq_def call_def Update_def persist_calls_def)
qed

lemma doSnapshotCommand_after_setup:
  assumes "\<not> segmentSize < 1000" "succeed_on env create_setup_calls"
  shows "doSnapshotCommand env fromBlock toBlock segmentSize tr
       = deferred Close (create_body env fromBlock toBlock segmentSize) (tr @ create_setup_calls)"
  using assms(1) by (simp add: doSnapshotCommand_def create_setup_ok[OF assms(2)])

lemma persist_snapshots_returns: "\<exists>x. fst (persist_snapshots env tr) = Returns x"
  by (auto simp: persist_snapshots_def seq_def call_def Update_def split: option.splits)

lemma persist_snapshots_nil_iff:
  "fst (persist_snapshots env tr) = Returns None \<longleftrightarrow>
     respond env tr ReopenFolder = None
   \<and> respond env (tr @ [ReopenFolder]) NewAggregator22 = None
   \<and> respond env (tr @ [ReopenFolder, NewAggregator22]) ReopenFiles = None
   \<and> respond env (tr @ [ReopenFolder, NewAggregator22, ReopenFiles, SetWorkers]) BeginRw = None
   \<and> respond env (tr @ [ReopenFolder, NewAggregator22, ReopenFiles, SetWorkers, BeginRw])
         WriteSnapshots = None
   \<and> respond env (tr @ [ReopenFolder, NewAggregator22, ReopenFiles, SetWorkers, BeginRw,
         WriteSnapshots]) Commit = None"
  by (auto simp: persist_snapshots_def seq_def call_def Update_def split: option.splits)

text \<open>
  Claim C3, as amended. When the segment size is at least 1000, the directories and the
  database open, and \<open>snapshotBlocks\<close> returns an error, the create command writes the
  error to the log and goes on: its result is that of the phases that follow. It is
  \<open>nil\<close> when those succeed, and an error when one of them fails.
\<close>

theorem doSnapshotCommand_logs_dump_error:
  assumes "\<not> segmentSize < 1000" and "succeed_on env create_setup_calls"
    and "snapshotBlocks env fromBlock toBlock segmentSize (tr @ create_setup_calls)
         = (Returns (Some e), tr')"
  shows "doSnapshotCommand env fromBlock toBlock segmentSize tr
         = deferred Close (persist_snapshots env) (tr' @ [LogError e])
       \<and> (succeed_on env persist_calls \<longrightarrow>
            doSnapshotCommand env fromBlock toBlock segmentSize tr
            = (Returns None, tr' @ LogError e # persist_calls @ [Close]))
       \<and> (fst (persist_snapshots env (tr' @ [LogError e])) \<noteq> Returns None \<longrightarrow>
            (\<exists>e'. fst (doSnapshotCommand env fromBlock toBlock segmentSize tr)
                   = Returns (Some e')))"
proof -
  have 1: "doSnapshotCommand env fromBlock toBlock segmentSize tr
         = deferred Close (persist_snapshots env) (tr' @ [LogError e])"
    by (simp add: doSnapshotCommand_after_setup[OF assms(1,2)] deferred_def create_body_def assms(3))
  have 2: "succeed_on env persist_calls \<longrightarrow>
            doSnapshotCommand env fromBlock toBlock segmentSize tr
            = (Returns None, tr' @ LogError e # persist_calls @ [Close])"
    by (simp add: 1 deferred_def persist_snapshots_ok)
  have f: "fst (doSnapshotCommand env fromBlock toBlock segmentSize tr)
         = fst (persist_snapshots env (tr' @ [LogError e]))"
    by (simp add: 1 deferred_def split: prod.splits)
  obtain x where x: "fst (persist_snapshots env (tr' @ [LogError e])) = Returns x"
    using persist_snapshots_returns by blast
  have 3: "fst (persist_snapshots env (tr' @ [LogError e])) \<noteq> Returns None \<longrightarrow>
            (\<exists>e'. fst (doSnapshotCommand env fromBlock toBlock segmentSize tr)
                   = Returns (Some e'))"
    by (cases x) (simp_all add: f x)
  from 1 2 3 show ?thesis by blast
qed

lemma succeed_on_dump_fails: "succeed_on dump_fails cs = list_all (\<lambda>c. \<forall>a b n. c \<noteq> DumpBlocks a b n) cs"
  by (auto simp: succeed_on_def dump_fails_def quiet_def list_all_iff split: call.splits)

lemma snapshotBlocks_dump_fails:
  "snapshotBlocks dump_fails 0 2000 1000 tr
   = (Returns (Some (DumpBlocksError (External 1))), tr @ [DumpBlocks 0 2000 1000])"
  by (simp add: snapshotBlocks_def dump_blocks_def dump_fails_def quiet_def)

text \<open>Claim C3 for \<open>create --from=0 --to=2000 --segment.size=1000\<close> with a failing dump.\<close>

theorem doSnapshotCommand_logs_dump_error_witness:
  "\<not> (1000::uint64) < 1000 \<and> succeed_on dump_fails create_setup_calls
   \<and> succeed_on dump_fails persist_calls
   \<and> snapshotBlocks dump_fails 0 2000 1000 ([] @ create_setup_calls)
       = (Returns (Some (DumpBlocksError (External 1))), create_setup_calls @ [DumpBlocks 0 2000 1000])
   \<and> doSnapshotCommand dump_fails 0 2000 1000 []
       = (Returns None,
          (create_setup_calls @ [DumpBlocks 0 2000 1000])
            @ LogError (DumpBlocksError (External 1)) # persist_calls @ [Close])"
proof -
  have a: "\<not> (1000::uint64) < 1000" by simp
  have b: "succeed_on dump_fails create_setup_calls"
    by (simp add: succeed_on_dump_fails create_setup_calls_def)
  have c: "succeed_on dump_fails persist_calls"
    by (simp add: succeed_on_dump_fails persist_calls_def)
  have d: "snapshotBlocks dump_fails 0 2000 1000 ([] @ create_setup_calls)
       = (Returns (Some (DumpBlocksError (External 1))), create_setup_calls @ [DumpBlocks 0 2000 1000])"
    by (simp add: snapshotBlocks_dump_fails)
  from doSnapshotCommand_logs_dump_error[OF a b d] c
  have "doSnapshotCommand dump_fails 0 2000 1000 []
       = (Returns None,
          (create_setup_calls @ [DumpBlocks 0 2000 1000])
            @ LogError (DumpBlocksError (External 1)) # persist_calls @ [Close])"
    by blast
  with a b c d show ?thesis by blast
qed

text \<open>
  Claim C3 as stated fails: with a dump that fails, \<open>snapshotBlocks\<close> returns an error
  and the create command returns \<open>nil\<close>.
\<close>

theorem doSnapshotCommand_swallows_error_counterexample:
  "fst (snapshotBlocks dump_fails 0 2000 1000 create_setup_calls)
     = Returns (Some (DumpBlocksError (External 1)))
   \<and> fst (doSnapshotCommand dump_fails 0 2000 1000 []) = Returns None"
proof -
  have b: "succeed_on dump_fails create_setup_calls"
    by (simp add: succeed_on_dump_fails create_setup_calls_def)
  have c: "succeed_on dump_fails persist_calls"
    by (simp add: succeed_on_dump_fails persist_calls_def)
  have "doSnapshotCommand dump_fails 0 2000 1000 []
      = deferred Close (create_body dump_fails 0 2000 1000) ([] @ create_setup_calls)"
    by (rule doSnapshotCommand_after_setup[OF _ b]) simp
  then show ?thesis
    by (simp add: snapshotBlocks_dump_fails deferred_def create_body_def persist_snapshots_ok[OF c])
qed

lemma retired_ranges_prune_history:
  "retired_ranges (concat (replicate n [BeginRw, Agg_SetTx, Agg_Prune, Commit]) @ r) = retired_ranges r"
  by (induction n) simp_all

lemma emits_deferred: "emits f S \<Longrightarrow> c \<in> S \<Longrightarrow> emits (deferred c f) S"
proof (rule emitsI)
  fix tr assume f: "emits f S" and c: "c \<in> S"
  obtain s where s: "snd (f tr) = tr @ s" "set s \<subseteq> S" using emitsD[OF f] by blast
  then have "snd (deferred c f tr) = tr @ (s @ [c])"
    by (cases "f tr") (simp add: deferred_def)
  moreover have "set (s @ [c]) \<subseteq> S" using s(2) c by simp
  ultimately show "\<exists>s. snd (deferred c f tr) = tr @ s \<and> set s \<subseteq> S" by blast
qed

lemma emits_snapshotBlocks: "emits (snapshotBlocks env fromBlock toBlock blocksPerFile) UNIV"
  by (rule emitsI)
     (auto simp: snapshotBlocks_def dump_blocks_def lastChunk_def Let_def
       split: option.splits if_splits)

lemma emits_persist_snapshots: "emits (persist_snapshots env) UNIV"
  unfolding persist_snapshots_def
  by (intro emits_seq emits_call emits_Update emits_append) simp_all

lemma emits_create_body: "emits (create_body env fromBlock toBlock segmentSize) UNIV"
proof (rule emitsI)
  fix tr
  obtain s where s: "snd (snapshotBlocks env fromBlock toBlock segmentSize tr) = tr @ s"
    using emitsD[OF emits_snapshotBlocks] by blast
  obtain r where r: "snapshotBlocks env fromBlock toBlock segmentSize tr = (r, tr @ s)"
    using s by (cases "snapshotBlocks env fromBlock toBlock segmentSize tr") simp
  obtain s1 where s1: "snd (persist_snapshots env (tr @ s)) = (tr @ s) @ s1"
    using emitsD[OF emits_persist_snapshots] by blast
  obtain s2 where s2: "\<And>e. \<exists>s2. snd (persist_snapshots env (tr @ s @ [LogError e])) = (tr @ s @ [LogError e]) @ s2"
    using emitsD[OF emits_persist_snapshots] by (metis append.assoc)
  have "\<exists>s'. snd (create_body env fromBlock toBlock segmentSize tr) = tr @ s'"
  proof (cases r)
    case (Panics p)
    then show ?thesis by (simp add: create_body_def r)
  next
    case (Returns x)
    show ?thesis
    proof (cases x)
      case None
      then show ?thesis using s1 by (simp add: create_body_def r Returns)
    next
      case (Some e)
      obtain s3 where "snd (persist_snapshots env (tr @ s @ [LogError e])) = (tr @ s @ [LogError e]) @ s3"
        using s2 by blast
      then show ?thesis by (simp add: create_body_def r Returns Some)
    qed
  qed
  then show "\<exists>s. snd (create_body env fromBlock toBlock segmentSize tr) = tr @ s \<and> set s \<subseteq> UNIV"
    by simp
qed

lemma seq_must_first:
  assumes "emits g UNIV"
  shows "\<exists>s. snd (seq (must env c) g tr) = tr @ c # s"
proof -
  obtain s where "snd (g (tr @ [c])) = (tr @ [c]) @ s" using emitsD[OF assms] by blast
  then show ?thesis
    by (cases "respond env tr c") (simp_all add: seq_def must_def)
qed

text \<open>
  Claim C7. A segment size below 1000 makes the create command return the error
  \<open>too small --segment.size\<close> without any call having been made: no directory is
  created and the database is not opened. With a segment size of at least 1000 the
  check passes and the command goes on to its first call, \<open>dir.MustExist(dirs.Snap)\<close>.
\<close>

theorem doSnapshotCommand_segment_size:
  "(segmentSize < 1000 \<longrightarrow>
      doSnapshotCommand env fromBlock toBlock segmentSize tr
      = (Returns (Some (TooSmallSegmentSize segmentSize)), tr))
   \<and> (\<not> segmentSize < 1000 \<longrightarrow>
      (\<exists>s. snd (doSnapshotCommand env fromBlock toBlock segmentSize tr)
            = tr @ MustExist Snap # s))"
proof (intro conjI impI)
  assume "segmentSize < 1000"
  then show "doSnapshotCommand env fromBlock toBlock segmentSize tr
      = (Returns (Some (TooSmallSegmentSize segmentSize)), tr)"
    by (simp add: doSnapshotCommand_def)
next
  assume big: "\<not> segmentSize < 1000"
  have "emits (seq (must env (MustExist SnapHistory))
       (seq (must env (MustExist Tmp))
       (seq (must env MustOpen)
            (deferred Close (create_body env fromBlock toBlock segmentSize))))) UNIV"
    by (intro emits_seq emits_must emits_deferred emits_create_body) simp_all
  from seq_must_first[OF this, of env "MustExist Snap" tr] big
  show "\<exists>s. snd (doSnapshotCommand env fromBlock toBlock segmentSize tr) = tr @ MustExist Snap # s"
    by (simp add: doSnapshotCommand_def)
qed

text \<open>Claim C7 at the segment sizes 999 and 1000.\<close>

theorem doSnapshotCommand_segment_size_witness:
  "(999::uint64) < 1000
   \<and> doSnapshotCommand quiet 0 2000 999 [] = (Returns (Some (TooSmallSegmentSize 999)), [])
   \<and> \<not> (1000::uint64) < 1000
   \<and> (\<exists>s. snd (doSnapshotCommand quiet 0 2000 1000 []) = [] @ MustExist Snap # s)"
  using doSnapshotCommand_segment_size[of 999 quiet 0 2000 "[]"]
    doSnapshotCommand_segment_size[of 1000 quiet 0 2000 "[]"]
  by simp

lemma unat_margin:
  fixes k m :: uint64
  shows "unat (if k > m then k - m else 0) = unat k - unat m"
proof (cases "k > m")
  case True
  then have "m \<le> k" by simp
  then show ?thesis using True by (simp add: unat_sub)
next
  case False
  then have "unat k \<le> unat m" by (simp add: word_less_nat_alt)
  with False show ?thesis by simp
qed

lemma unat_round_down:
  fixes l n :: uint64
  shows "unat (l - l mod n) = (unat l div unat n) * unat n"
proof -
  have "l mod n \<le> l" by (simp add: word_le_nat_alt unat_mod)
  then have "unat (l - l mod n) = unat l - unat l mod unat n"
    by (simp add: unat_sub unat_mod)
  then show ?thesis by (simp add: minus_mod_eq_div_mult)
qed

text \<open>
  The create command's side of claim C4: with \<open>to = 0\<close>, a last key of eight bytes or
  more and no failing call, \<open>snapshotBlocks\<close> reads the last key of the block-body table
  in a read-only transaction and dumps up to the bound of the specification.
\<close>

lemma snapshotBlocks_unbounded:
  assumes "all_succeed env" and "BigEndian_Uint64 (last_key env) = Some k" and "blocksPerFile \<noteq> 0"
  shows "\<exists>bound. snapshotBlocks env fromBlock 0 blocksPerFile tr
           = (Returns None,
              tr @ [BeginRo, Cursor_BlockBody, Cursor_Last, Rollback,
                    DumpBlocks fromBlock bound blocksPerFile])
         \<and> unat bound
           = selected_upper_bound (unat k) (unat (FullImmutabilityThreshold env)) (unat blocksPerFile)"
proof -
  let ?l = "if k > FullImmutabilityThreshold env then k - FullImmutabilityThreshold env else 0"
  have r: "respond env t c = None" for t c using assms(1) by (simp add: all_succeed_def)
  have "snapshotBlocks env fromBlock 0 blocksPerFile tr
           = (Returns None,
              tr @ [BeginRo, Cursor_BlockBody, Cursor_Last, Rollback,
                    DumpBlocks fromBlock (?l - ?l mod blocksPerFile) blocksPerFile])"
    using assms(3)
    by (simp add: snapshotBlocks_def lastChunk_def dump_blocks_def r assms(2) Let_def)
  moreover have "unat (?l - ?l mod blocksPerFile)
      = selected_upper_bound (unat k) (unat (FullImmutabilityThreshold env)) (unat blocksPerFile)"
    unfolding selected_upper_bound_def unat_round_down unat_margin ..
  ultimately show ?thesis by blast
qed

lemma retire_loop_to_zero: "retire_loop fuel env from 0 every tr = (Some (Returns None), tr)"
  by (cases fuel) simp_all

text \<open>
  Claim C4 on the retire command. With \<open>to = 0\<close> the loop over the block ranges ends
  before its first round, whatever \<open>from\<close> and \<open>every\<close> are: no upper bound is
  selected, the last block key is not read and \<open>RetireBlocks\<close> is not called. When no
  call fails the command goes from its setup straight to the history part.
\<close>

theorem doRetireCommand_to_zero:
  "retire_loop fuel env from 0 every tr = (Some (Returns None), tr)
   \<and> (all_succeed env \<longrightarrow>
        doRetireCommand fuel env from 0 every tr
        = (Some (Returns None),
           tr @ setup_calls @ HistoryV3_FromDB
             # (if history_v3 env then history_calls env else []) @ [Close]))"
proof (intro conjI impI)
  show "retire_loop fuel env from 0 every tr = (Some (Returns None), tr)"
    by (rule retire_loop_to_zero)
next
  assume ok: "all_succeed env"
  have s: "retire_setup env (tr @ [MustOpen]) = (Returns None, tr @ setup_calls)"
    by (simp add: retire_setup_ok[OF ok] setup_calls_def)
  show "doRetireCommand fuel env from 0 every tr
        = (Some (Returns None),
           tr @ setup_calls @ HistoryV3_FromDB
             # (if history_v3 env then history_calls env else []) @ [Close])"
    unfolding doRetireCommand_def
    by (simp add: must_ok[OF ok] s retire_loop_to_zero history_phases_ok[OF ok])
qed

text \<open>
  Claim C4 for \<open>retire --from=0 --to=0 --every=1000\<close> on a database whose last block
  key is 100000: nothing is retired and no cursor is opened, while the create command
  selects the upper bound 10000 there.
\<close>

theorem doRetireCommand_to_zero_witness:
  "all_succeed quiet
   \<and> retired_ranges (snd (doRetireCommand 5 quiet 0 0 1000 [])) = []
   \<and> Cursor_Last \<notin> set (snd (doRetireCommand 5 quiet 0 0 1000 []))
   \<and> snapshotBlocks quiet 0 0 1000 []
       = (Returns None, [BeginRo, Cursor_BlockBody, Cursor_Last, Rollback, DumpBlocks 0 10000 1000])"
proof -
  have v3: "history_v3 quiet" by (simp add: quiet_def)
  have t: "snd (doRetireCommand 5 quiet 0 0 1000 [])
      = setup_calls @ HistoryV3_FromDB # history_calls quiet @ [Close]"
    using doRetireCommand_to_zero[of 5 quiet 0 1000 "[]"] all_succeed_quiet v3 by simp
  have h: "retired_ranges (history_calls quiet @ r) = retired_ranges r"
      "Cursor_Last \<notin> set (history_calls quiet)" for r
    using retired_ranges_prune_history[of history_prune_rounds "[]"]
    by (auto simp: history_calls_def watermark_calls_def prune_history_calls_def
        retired_ranges_append)
  have k: "BigEndian_Uint64 (last_key quiet) = Some 100000"
    by (simp add: BigEndian_Uint64_def quiet_def)
  have "snapshotBlocks quiet 0 0 1000 []
       = (Returns None, [BeginRo, Cursor_BlockBody, Cursor_Last, Rollback, DumpBlocks 0 10000 1000])"
  proof -
    have rq: "respond quiet t c = None" for t c by (simp add: quiet_def)
    have thr: "FullImmutabilityThreshold quiet = 90000" by (simp add: quiet_def)
    have lc: "lastChunk quiet 1000 [BeginRo]
        = (Returns (10000, None), [BeginRo, Cursor_BlockBody, Cursor_Last])"
      by (simp add: lastChunk_def rq k thr)
    show ?thesis
      by (simp add: snapshotBlocks_def rq lc dump_blocks_def)
  qed
  with t h all_succeed_quiet show ?thesis
    by (simp add: retired_ranges_append retired_ranges_setup_calls setup_calls_def)
qed

section \<open>Properties of \<open>compress\<close> and \<open>uncompress\<close>\<close>

lemma m127: "(0x7f :: 'a::len word) = mask 7"
  by (simp add: mask_eq_exp_minus_1)

lemma low7: "ucast (((ucast (x :: 64 word) :: 8 word) OR 0x80) AND 0x7f) = (take_bit 7 x :: 64 word)"
proof -
  have "(0x80 :: 8 word) = push_bit 7 1" by simp
  then show ?thesis
    unfolding m127
    by (intro bit_word_eqI) (auto simp: bit_simps simp flip: take_bit_eq_mask)
qed

lemma split7: "take_bit 7 x OR push_bit 7 (drop_bit 7 x) = (x :: 64 word)"
proof (rule bit_word_eqI)
  fix n assume "n < LENGTH(64)"
  show "bit (take_bit 7 x OR push_bit 7 (drop_bit 7 x)) n = bit x n"
    by (cases "n < 7") (auto simp: bit_simps not_less dest: bit_imp_le_length)
qed

lemma join7: "push_bit s (take_bit 7 x) OR push_bit (s + 7) (drop_bit 7 x) = push_bit s (x :: 64 word)"
proof -
  have "push_bit s (take_bit 7 x) OR push_bit (s + 7) (drop_bit 7 x)
        = push_bit s (take_bit 7 x OR push_bit 7 (drop_bit 7 x))"
    by (simp add: push_bit_or push_bit_push_bit add.commute)
  then show ?thesis by (simp only: split7)
qed

lemma high_set: "\<not> ((ucast (x :: 64 word) :: 8 word) OR 0x80) < 0x80"
proof -
  have "(0x80 :: 8 word) \<le> 0x80 OR ucast x" by (rule le_word_or2)
  then show ?thesis by (simp add: or.commute not_less)
qed

lemma small_byte:
  assumes "(x :: 64 word) < 0x80"
  shows "(ucast x :: 8 word) < 0x80" and "(ucast (ucast x :: 8 word) :: 64 word) = x"
proof -
  have u: "unat x < 128" using assms by (simp add: word_less_nat_alt)
  then show "(ucast x :: 8 word) < 0x80"
    by (simp add: word_less_nat_alt unsigned_ucast_eq take_bit_eq_mod)
  have "x < 2 ^ 8" using assms by (simp add: word_less_nat_alt)
  then have "take_bit 8 x = x" by (simp add: less_mask_eq take_bit_eq_mask)
  moreover have "(ucast (ucast x :: 8 word) :: 64 word) = take_bit 8 x"
    by (rule bit_word_eqI) (auto simp: bit_simps)
  ultimately show "(ucast (ucast x :: 8 word) :: 64 word) = x" by simp
qed


lemma PutUvarint_small: "x < 0x80 \<Longrightarrow> PutUvarint x = [ucast x]"
  by (subst PutUvarint.simps) (simp add: not_le[symmetric])

lemma PutUvarint_big:
  "0x80 \<le> x \<Longrightarrow> PutUvarint x = (ucast x OR 0x80) # PutUvarint (drop_bit 7 x)"
  by (subst PutUvarint.simps) simp

lemma ReadUvarint_from_PutUvarint:
  "i \<le> 9 \<Longrightarrow> unat x < 2 ^ (64 - 7 * i) \<Longrightarrow>
   ReadUvarint_from i acc s (PutUvarint x @ rest) = ((acc OR push_bit s x, None), rest)"
proof (induction x arbitrary: i acc s rule: PutUvarint.induct)
  case (1 x)
  show ?case
  proof (cases "0x80 \<le> x")
    case True
    then have big: "2 ^ 7 \<le> unat x" by (simp add: word_le_nat_alt)
    with "1.prems"(2) have "(2::nat) ^ 7 < 2 ^ (64 - 7 * i)" by simp
    then have "7 < 64 - 7 * i" by (simp only: power_strict_increasing_iff)
    then have i8: "i \<le> 8" by simp
    have "unat (drop_bit 7 x) = unat x div 2 ^ 7"
      by (simp add: unat_drop_bit_eq drop_bit_eq_div unat_div)
    also have "\<dots> < 2 ^ (64 - 7 * (i + 1))"
    proof -
      have "64 - 7 * i = (64 - 7 * (i + 1)) + 7" using i8 by simp
      then have "(2::nat) ^ (64 - 7 * i) = 2 ^ (64 - 7 * (i + 1)) * 2 ^ 7"
        by (simp only: power_add)
      with "1.prems"(2) show ?thesis by (simp add: less_mult_imp_div_less)
    qed
    finally have rec: "unat (drop_bit 7 x) < 2 ^ (64 - 7 * (i + 1))" .
    have "ReadUvarint_from i acc s (PutUvarint x @ rest)
        = ReadUvarint_from (i + 1) (acc OR push_bit s (take_bit 7 x)) (s + 7)
            (PutUvarint (drop_bit 7 x) @ rest)"
      using i8 by (simp add: PutUvarint_big[OF True] high_set low7)
    also have "\<dots> = (((acc OR push_bit s (take_bit 7 x)) OR push_bit (s + 7) (drop_bit 7 x), None), rest)"
      using "1.IH"[OF True _ rec] i8 by simp
    also have "(acc OR push_bit s (take_bit 7 x)) OR push_bit (s + 7) (drop_bit 7 x)
        = acc OR push_bit s x"
      by (simp only: or.assoc join7)
    finally show ?thesis .
  next
    case False
    then have small: "x < 0x80" by simp
    have nine: "\<not> (ucast x :: byte) > 1" if "i = 9"
    proof -
      from that "1.prems"(2) have u: "unat x < 2" by simp
      then have "unat (ucast x :: byte) = unat x"
        by (simp add: unsigned_ucast_eq take_bit_eq_mod)
      with u show ?thesis by (simp add: word_less_nat_alt)
    qed
    show ?thesis
      using "1.prems"(1) nine
      by (auto simp: PutUvarint_small[OF small] small_byte[OF small])
  qed
qed

lemma ReadUvarint_PutUvarint: "ReadUvarint (PutUvarint x @ rest) = ((x, None), rest)"
  using ReadUvarint_from_PutUvarint[of 0 x 0 0 rest] unsigned_less[of x, where 'a=nat]
  by (simp add: ReadUvarint_def)


text \<open>
  \<open>ReadUvarint\<close> also accepts encodings that \<open>PutUvarint\<close> never writes: the two
  bytes \<open>80 00\<close> are read as zero, and \<open>uncompress\<close> would write that length back as
  the one byte \<open>00\<close>. The stream of the round trip is the one in which every length is
  written as \<open>PutUvarint\<close> writes it.
\<close>

lemma ReadUvarint_padded_zero: "ReadUvarint [0x80, 0x00] = ((0, None), [])"
  by (simp add: ReadUvarint_def)

lemma ReadFull_exact: "ReadFull (length w) (w @ rest) = ((w, None), rest)"
  by (simp add: ReadFull_def)

lemma unat_length:
  "length w < 2 ^ 63 \<Longrightarrow> unat (of_nat (length w) :: uint64) = length w"
proof -
  assume "length w < 2 ^ 63"
  then have "length w < 2 ^ 64" by simp
  then show ?thesis by (simp add: unat_of_nat)
qed

lemma wire_format_Cons:
  "wire_format (w # ws) = PutUvarint (of_nat (length w)) @ w @ wire_format ws"
  by (simp add: wire_format_def)

lemma compress_loop_wire:
  assumes "no_io_failure env"
  shows "\<forall>w \<in> set ws. length w < 2 ^ 63 \<Longrightarrow>
         compress_loop env k c (wire_format ws) = (Returns None, c @ ws)"
proof (induction ws arbitrary: k c)
  case Nil
  show ?case
    by (subst compress_loop.simps) (simp add: wire_format_def ReadUvarint_def)
next
  case (Cons w ws)
  then have len: "length w < 2 ^ 63" and rest: "\<forall>w \<in> set ws. length w < 2 ^ 63"
    by simp_all
  have add: "AddWord_err env c w = None" and run: "\<not> ctx_done env k"
    using assms by (simp_all add: no_io_failure_def)
  have "compress_loop env k c (wire_format (w # ws))
        = compress_loop env (k + 1) (c @ [w]) (wire_format ws)"
    using len
    by (subst compress_loop.simps)
       (simp add: wire_format_Cons ReadUvarint_PutUvarint unat_length ReadFull_exact add run)
  then show ?case by (simp add: Cons.IH[OF rest])
qed

lemma uncompress_loop_wire:
  assumes "no_io_failure env"
  shows "uncompress_loop env k ws out = (Returns None, out @ wire_format ws)"
proof (induction ws arbitrary: k out)
  case Nil
  show ?case by (simp add: wire_format_def)
next
  case (Cons w ws)
  have "Write_err env x = None" "\<not> ctx_done env k" for x
    using assms by (simp_all add: no_io_failure_def)
  then show ?case by (simp add: Cons.IH wire_format_Cons)
qed

text \<open>
  Claim C1. When no call of the codec, no write and no poll of the context fails, then
  for every sequence of byte records (each shorter than \<open>2^63\<close> bytes, as every Go
  slice is) given to \<open>compress\<close> on standard input as uvarint length and bytes, record
  after record, the command returns \<open>nil\<close> and leaves a segment file that holds the
  records in order; \<open>uncompress\<close> on that file returns \<open>nil\<close> and has written to
  standard output exactly the bytes that \<open>compress\<close> read.
\<close>

theorem compress_uncompress_roundtrip:
  assumes "no_io_failure env" and "\<forall>w \<in> set ws. length w < 2 ^ 63"
  shows "doCompress env [path] (wire_format ws) fs = (Returns None, fs(path \<mapsto> ws))
       \<and> doUncompress env [path] (snd (doCompress env [path] (wire_format ws) fs))
           = (Returns None, wire_format ws)"
proof -
  have n: "NewCompressor_err env = None" "Compress_err env ws = None"
      "NewDecompressor_err env path = None"
    using assms(1) by (simp_all add: no_io_failure_def)
  have c: "doCompress env [path] (wire_format ws) fs = (Returns None, fs(path \<mapsto> ws))"
    using compress_loop_wire[OF assms, of 0 "[]"] by (simp add: doCompress_def n)
  have "doUncompress env [path] (fs(path \<mapsto> ws)) = (Returns None, wire_format ws)"
    using uncompress_loop_wire[OF assms(1), of 0 ws "[]"] by (simp add: doUncompress_def n)
  with c show ?thesis by simp
qed

lemma no_io_failure_io_quiet: "no_io_failure io_quiet"
  by (simp add: no_io_failure_def io_quiet_def)

text \<open>
  Claim C1 at the records \<open>[1, 2, 3]\<close>, the empty record and \<open>[9]\<close>, whose stream is
  \<open>3 1 2 3 0 1 9\<close>.
\<close>

theorem compress_uncompress_roundtrip_witness:
  "no_io_failure io_quiet
   \<and> length [1, 2, 3 :: byte] < 2 ^ 63 \<and> length ([] :: byte list) < 2 ^ 63
   \<and> length [9 :: byte] < 2 ^ 63
   \<and> wire_format [[1, 2, 3], [], [9]] = [3, 1, 2, 3, 0, 1, 9]
   \<and> doUncompress io_quiet [''a.seg'']
        (snd (doCompress io_quiet [''a.seg''] [3, 1, 2, 3, 0, 1, 9] Map.empty))
       = (Returns None, [3, 1, 2, 3, 0, 1, 9])"
proof -
  have l: "\<forall>w \<in> set [[1, 2, 3], [], [9 :: byte]]. length w < 2 ^ 63" by simp
  have w: "wire_format [[1, 2, 3], [], [9]] = [3, 1, 2, 3, 0, 1, 9]"
    by (simp add: wire_format_def PutUvarint_small)
  note t = compress_uncompress_roundtrip[OF no_io_failure_io_quiet l, of "''a.seg''" Map.empty,
      unfolded w]
  from t have "doUncompress io_quiet [''a.seg'']
        (snd (doCompress io_quiet [''a.seg''] [3, 1, 2, 3, 0, 1, 9] Map.empty))
       = (Returns None, [3, 1, 2, 3, 0, 1, 9])"
    by (rule conjunct2)
  with no_io_failure_io_quiet w show ?thesis by simp
qed

end
